theory Spec2Isabelle
  imports Complex_Main "HOL-Library.Char_ord" "HOL-Library.List_Lexorder" "HOL-Library.AList"
begin

section \<open>Python values used by typewriter.py\<close>

text \<open>
  Strings are lists of characters; a \<^typ>\<open>char\<close> stands for one code point in the
  range 0..255.  Python integers that the program receives from outside (cursor, key
  codes, widths, target positions) are \<^typ>\<open>int\<close>; counters that start at 0 and are
  only ever incremented (\<open>line_idx\<close>, \<open>para_start\<close>, \<open>para_char\<close>, \<open>text_pos\<close>) are
  \<^typ>\<open>nat\<close>.  Exceptions are values of \<open>py_error\<close>, carried in \<open>py_error + 'a\<close>.

  The development follows \<open>typewriter.py\<close>: the wrapper of the standard library that
  \<open>_wrap_with_cursor\<close> and \<open>_pos_from_line_col\<close> call, the two mappings, rendering as far
  as the scroll offset and the composited page, document management over a file system
  of paths and contents, the key handler with sleep and wake, and the main loop.  Font
  loading, pixel drawing, device discovery, \<open>run\<close> and \<open>_shutdown\<close> are left out.
\<close>

datatype py_error = ValueError | IndexError

definition py_bind :: "py_error + 'a \<Rightarrow> ('a \<Rightarrow> py_error + 'b) \<Rightarrow> py_error + 'b" where
  "py_bind m f = (case m of Inl e \<Rightarrow> Inl e | Inr x \<Rightarrow> f x)"

definition py_len :: "'a list \<Rightarrow> int" where
  "py_len xs = int (length xs)"

text \<open>\<open>xs[i]\<close> with Python's reading of an index below 0; IndexError outside the list.\<close>

definition py_index :: "'a list \<Rightarrow> int \<Rightarrow> py_error + 'a" where
  "py_index xs i =
     (if 0 \<le> i \<and> i < py_len xs then Inr (xs ! nat i)
      else if - py_len xs \<le> i \<and> i < 0 then Inr (xs ! nat (py_len xs + i))
      else Inl IndexError)"

text \<open>\<open>xs[:e]\<close> and \<open>xs[b:]\<close>: a negative bound counts from the end, and bounds are clipped.\<close>

definition slice_to :: "'a list \<Rightarrow> int \<Rightarrow> 'a list" where
  "slice_to xs e = (if e < 0 then take (nat (py_len xs + e)) xs else take (nat e) xs)"

definition slice_from :: "'a list \<Rightarrow> int \<Rightarrow> 'a list" where
  "slice_from xs b = (if b < 0 then drop (nat (py_len xs + b)) xs else drop (nat b) xs)"

text \<open>\<open>xs[a:b]\<close>.\<close>

definition slice :: "'a list \<Rightarrow> int \<Rightarrow> int \<Rightarrow> 'a list" where
  "slice xs a b =
     (let n = py_len xs;
          a' = (if a < 0 then max 0 (a + n) else min a n);
          b' = (if b < 0 then max 0 (b + n) else min b n)
      in take (nat (b' - a')) (drop (nat a') xs))"

definition NL :: char where "NL = CHR 0x0A"
definition TAB :: char where "TAB = CHR 0x09"
definition CR :: char where "CR = CHR 0x0D"
definition SPC :: char where "SPC = CHR 0x20"

text \<open>\<open>text.split("\n")\<close>: always at least one piece.\<close>

fun split_nl :: "string \<Rightarrow> string list" where
  "split_nl [] = [[]]"
| "split_nl (c # cs) =
     (if c = NL then [] # split_nl cs
      else (case split_nl cs of [] \<Rightarrow> [[c]] | p # ps \<Rightarrow> (c # p) # ps))"

text \<open>\<open>str.isspace\<close> on one code point below 256 (what \<open>str.strip()\<close> removes).\<close>

definition py_isspace :: "char \<Rightarrow> bool" where
  "py_isspace c = (of_char c \<in> {9, 10, 11, 12, 13, 28, 29, 30, 31, 32, 133, 160 :: nat})"

definition py_strip :: "string \<Rightarrow> string" where
  "py_strip s = rev (dropWhile py_isspace (rev (dropWhile py_isspace s)))"

text \<open>\<open>chunk.strip() == ''\<close>.\<close>

definition strip_is_empty :: "string \<Rightarrow> bool" where
  "strip_is_empty s = list_all py_isspace s"

section \<open>textwrap.wrap(para, width, break_long_words=True, break_on_hyphens=False)\<close>

text \<open>
  The standard library's \<open>TextWrapper\<close> with its defaults \<open>expand_tabs=True\<close>,
  \<open>tabsize=8\<close>, \<open>replace_whitespace=True\<close>, \<open>drop_whitespace=True\<close>,
  \<open>fix_sentence_endings=False\<close>, empty indents and \<open>max_lines=None\<close>.
\<close>

text \<open>\<open>string.whitespace\<close>: the characters the wrapper's regular expression splits on.\<close>

definition is_ws :: "char \<Rightarrow> bool" where
  "is_ws c = (of_char c \<in> {9, 10, 11, 12, 13, 32 :: nat})"

text \<open>\<open>str.expandtabs(tabsize)\<close>, with the running column as second argument.\<close>

fun expandtabs :: "nat \<Rightarrow> nat \<Rightarrow> string \<Rightarrow> string" where
  "expandtabs tabsize line_pos [] = []"
| "expandtabs tabsize line_pos (ch # s) =
     (if ch = TAB then
        (if tabsize > 0 then
           (let incr = tabsize - (line_pos mod tabsize)
            in replicate incr SPC @ expandtabs tabsize (line_pos + incr) s)
         else expandtabs tabsize line_pos s)
      else if ch = NL \<or> ch = CR then ch # expandtabs tabsize 0 s
      else ch # expandtabs tabsize (line_pos + 1) s)"

definition munge_whitespace :: "string \<Rightarrow> string" where
  "munge_whitespace text = map (\<lambda>c. if is_ws c then SPC else c) (expandtabs 8 0 text)"

text \<open>
  \<open>wordsep_simple_re.split(text)\<close> without the empty pieces: the maximal runs of
  whitespace and of other characters, in order.
\<close>

fun split_simple :: "string \<Rightarrow> string list" where
  "split_simple [] = []"
| "split_simple (c # cs) =
     (case split_simple cs of
        [] \<Rightarrow> [[c]]
      | [] # chunks \<Rightarrow> [c] # chunks
      | (d # ds) # chunks \<Rightarrow>
          (if is_ws c = is_ws d then (c # d # ds) # chunks else [c] # (d # ds) # chunks))"

definition split_chunks :: "string \<Rightarrow> string list" where
  "split_chunks text = split_simple (munge_whitespace text)"

text \<open>
  \<open>_handle_long_word\<close> with \<open>break_long_words\<close> set and \<open>break_on_hyphens\<close> unset:
  the head of \<open>chunks\<close> is the chunk on top of the reversed stack.  Returns the stack
  and the current line.
\<close>

definition handle_long_word ::
    "string list \<Rightarrow> string list \<Rightarrow> nat \<Rightarrow> nat \<Rightarrow> string list \<times> string list" where
  "handle_long_word chunks cur_line cur_len width =
     (let space_left = (if width < 1 then 1 else int width - int cur_len);
          end = space_left;
          chunk = hd chunks
      in (slice_from chunk end # tl chunks, cur_line @ [slice_to chunk end]))"

text \<open>The inner \<open>while chunks\<close> loop: pop chunks while they fit on the current line.\<close>

fun take_fitting ::
    "nat \<Rightarrow> string list \<Rightarrow> nat \<Rightarrow> string list \<Rightarrow> string list \<times> nat \<times> string list" where
  "take_fitting width cur_line cur_len [] = (cur_line, cur_len, [])"
| "take_fitting width cur_line cur_len (c # chunks) =
     (if cur_len + length c \<le> width
      then take_fitting width (cur_line @ [c]) (cur_len + length c) chunks
      else (cur_line, cur_len, c # chunks))"

text \<open>One pass of the outer \<open>while chunks\<close> loop of \<open>_wrap_chunks\<close> (entered with a
  non-empty stack): the new \<open>lines\<close> and the remaining stack.\<close>

definition wrap_step :: "nat \<Rightarrow> string list \<Rightarrow> string list \<Rightarrow> string list \<times> string list" where
  "wrap_step width lines chunks =
     (let chunks1 = (if strip_is_empty (hd chunks) \<and> lines \<noteq> [] then tl chunks else chunks);
          (cur_line1, cur_len1, chunks2) = take_fitting width [] 0 chunks1;
          (chunks3, cur_line2) =
             (if chunks2 \<noteq> [] \<and> length (hd chunks2) > width
              then handle_long_word chunks2 cur_line1 cur_len1 width
              else (chunks2, cur_line1));
          cur_line3 =
             (if cur_line2 \<noteq> [] \<and> strip_is_empty (last cur_line2)
              then butlast cur_line2 else cur_line2)
      in (if cur_line3 \<noteq> [] then lines @ [concat cur_line3] else lines, chunks3))"

definition chunks_size :: "string list \<Rightarrow> nat" where
  "chunks_size chunks = sum_list (map (\<lambda>c. Suc (length c)) chunks)"

lemma take_fitting_size:
  "take_fitting width cl n chunks = (cl', n', rest) \<Longrightarrow> chunks_size rest \<le> chunks_size chunks"
proof (induction chunks arbitrary: cl n)
  case Nil
  then show ?case by simp
next
  case (Cons c chunks)
  show ?case
  proof (cases "n + length c \<le> width")
    case True
    with Cons.prems have "take_fitting width (cl @ [c]) (n + length c) chunks = (cl', n', rest)"
      by simp
    from Cons.IH [OF this] show ?thesis by (simp add: chunks_size_def)
  next
    case False
    with Cons.prems show ?thesis by auto
  qed
qed

lemma take_fitting_stuck:
  "take_fitting width cl n chunks = (cl', n', rest) \<Longrightarrow> chunks_size rest = chunks_size chunks \<Longrightarrow>
     rest = chunks \<and> cl' = cl \<and> n' = n \<and> (chunks \<noteq> [] \<longrightarrow> n + length (hd chunks) > width)"
proof (induction chunks arbitrary: cl n)
  case Nil
  then show ?case by simp
next
  case (Cons c chunks)
  show ?case
  proof (cases "n + length c \<le> width")
    case True
    with Cons.prems(1) have "take_fitting width (cl @ [c]) (n + length c) chunks = (cl', n', rest)"
      by simp
    from take_fitting_size [OF this] Cons.prems(2) show ?thesis
      by (simp add: chunks_size_def)
  next
    case False
    with Cons.prems(1) show ?thesis by auto
  qed
qed

lemma wrap_step_decreases:
  assumes "chunks \<noteq> []"
  shows "chunks_size (snd (wrap_step width lines chunks)) < chunks_size chunks"
proof -
  define chunks1 where "chunks1 = (if strip_is_empty (hd chunks) \<and> lines \<noteq> [] then tl chunks else chunks)"
  obtain cl1 n1 chunks2 where tf: "take_fitting width [] 0 chunks1 = (cl1, n1, chunks2)"
    by (cases "take_fitting width [] 0 chunks1") auto
  define chunks3 where "chunks3 =
     fst (if chunks2 \<noteq> [] \<and> length (hd chunks2) > width
          then handle_long_word chunks2 cl1 n1 width else (chunks2, cl1))"
  have res: "snd (wrap_step width lines chunks) = chunks3"
    by (simp add: wrap_step_def chunks1_def [symmetric] tf chunks3_def Let_def split: prod.splits)
  have le1: "chunks_size chunks1 \<le> chunks_size chunks"
    using assms by (cases chunks) (auto simp: chunks1_def chunks_size_def)
  have le2: "chunks_size chunks2 \<le> chunks_size chunks1"
    using take_fitting_size [OF tf] .
  have le3: "chunks_size chunks3 \<le> chunks_size chunks2"
  proof (cases "chunks2 \<noteq> [] \<and> length (hd chunks2) > width")
    case True
    then obtain c cs where c: "chunks2 = c # cs" by (cases chunks2) auto
    show ?thesis using True
      by (simp add: chunks3_def handle_long_word_def c chunks_size_def slice_from_def py_len_def Let_def)
  next
    case False
    then have "chunks3 = chunks2" by (auto simp: chunks3_def)
    then show ?thesis by simp
  qed
  show ?thesis
  proof (cases "chunks_size chunks3 < chunks_size chunks")
    case True
    with res show ?thesis by simp
  next
    case False
    with le1 le2 le3 have eq: "chunks_size chunks1 = chunks_size chunks"
      "chunks_size chunks2 = chunks_size chunks1" "chunks_size chunks3 = chunks_size chunks2"
      by simp_all
    have c1: "chunks1 = chunks"
      using eq(1) assms by (cases chunks) (auto simp: chunks1_def chunks_size_def split: if_splits)
    from take_fitting_stuck [OF tf eq(2)] c1 assms
    have stuck: "chunks2 = chunks" "length (hd chunks) > width" "n1 = 0" by auto
    obtain c cs where c: "chunks = c # cs" using assms by (cases chunks) auto
    with stuck have long: "length c > width" by simp
    have "chunks3 = slice_from c (if width < 1 then 1 else int width) # cs"
      using stuck c long by (simp add: chunks3_def handle_long_word_def Let_def)
    then have "chunks_size chunks3 < chunks_size chunks2"
      using long stuck(1) c by (auto simp: chunks_size_def slice_from_def)
    with eq(3) show ?thesis by simp
  qed
qed

text \<open>The outer loop of \<open>_wrap_chunks\<close>.\<close>

function wrap_loop :: "nat \<Rightarrow> string list \<Rightarrow> string list \<Rightarrow> string list" where
  "wrap_loop width lines chunks =
     (if chunks = [] then lines
      else (case wrap_step width lines chunks of (lines', chunks') \<Rightarrow> wrap_loop width lines' chunks'))"
  by pat_completeness auto
termination
  apply (relation "measure (\<lambda>(width, lines, chunks). chunks_size chunks)")
   apply simp
  using wrap_step_decreases apply (simp add: case_prod_unfold)
  done

declare wrap_loop.simps [simp del]

text \<open>\<open>_wrap_chunks\<close>: a width that is not positive is refused before the loop.\<close>

definition wrap_chunks :: "int \<Rightarrow> string list \<Rightarrow> py_error + string list" where
  "wrap_chunks width chunks =
     (if width \<le> 0 then Inl ValueError else Inr (wrap_loop (nat width) [] chunks))"

definition textwrap_wrap :: "string \<Rightarrow> int \<Rightarrow> py_error + string list" where
  "textwrap_wrap text width = wrap_chunks width (split_chunks text)"

section \<open>The application state\<close>

text \<open>
  What the display is asked to show: the composited page (visible lines, the cursor
  cell with the character under it, the fields of the status line) or the goodbye
  screen.  Pixels are not modelled.
\<close>

datatype image =
    Page "string list" "(int \<times> int \<times> char option) option" bool "string option" int int int
  | Goodbye "string list"

text \<open>The calls made on the display driver \<open>EPD42\<close>, in order.\<close>

datatype epd_call =
    Epd_init | Epd_init_partial | Epd_sleep | Epd_close
  | Epd_display image | Epd_full_refresh image | Epd_display_image_partial image

text \<open>An input event \<open>(type, code, value)\<close> of the keyboard device.\<close>

type_synonym event = "int \<times> int \<times> int"

text \<open>
  What one wait on the keyboard brings: no keyboard can be found, the wait times out,
  the device delivers a batch of events, or the device fails with \<open>OSError\<close>.  Each wait
  also carries the clock reading at its end and whether a termination signal arrived.
\<close>

datatype poll_result = No_keyboard | Timeout | Ready "event list" | Disconnected

record poll =
  poll_time :: real
  poll_stamp :: string
  poll_signal :: bool
  poll_result :: poll_result

text \<open>
  The fields of \<open>EtyperApp\<close> that the editing core reads or writes, followed by the
  world it acts on: the files (path and content), the documents directory \<open>DOCS_DIR\<close>,
  the clock read by \<open>time.time()\<close>, the calls received by the display and the future
  outcomes of waiting on the keyboard while asleep.  \<open>timestamp\<close> is the current local
  time as \<open>strftime("%Y%m%d_%H%M%S")\<close> prints it, \<open>char_w\<close> the advance width of the font.
\<close>

record app =
  doc_text :: string
  cursor :: int
  doc_path :: "string option"
  running :: bool
  dirty :: bool
  last_save_time :: real
  shift_held :: bool
  ctrl_held :: bool
  chars_per_line :: int
  lines_per_page :: int
  char_w :: int
  needs_display_update :: bool
  scroll_offset :: int
  files :: "(string \<times> string) list"
  docs_dir :: string
  clock :: real
  timestamp :: string
  epd :: "epd_call list"
  keyboard :: "poll list"

section \<open>Text wrapping with cursor tracking\<close>

type_synonym char_to_pos = "int \<rightharpoonup> int \<times> int"

text \<open>\<open>for col, ch in enumerate(w_line)\<close>: one entry per character of the wrapped line.\<close>

fun map_line_chars ::
    "nat \<Rightarrow> nat \<Rightarrow> nat \<Rightarrow> string \<Rightarrow> char_to_pos \<times> nat \<Rightarrow> char_to_pos \<times> nat" where
  "map_line_chars para_start line_idx col [] (c2p, para_char) = (c2p, para_char)"
| "map_line_chars para_start line_idx col (ch # w_line) (c2p, para_char) =
     map_line_chars para_start line_idx (Suc col) w_line
       (c2p(int (para_start + para_char) \<mapsto> (int line_idx, int col)), Suc para_char)"

text \<open>\<open>for w_line in wrapped\<close> of \<open>_wrap_with_cursor\<close>; the state is
  \<open>(char_to_pos, para_char, lines, line_idx)\<close>.\<close>

fun map_wrapped ::
    "string \<Rightarrow> nat \<Rightarrow> string list \<Rightarrow> char_to_pos \<times> nat \<times> string list \<times> nat
      \<Rightarrow> char_to_pos \<times> nat \<times> string list \<times> nat" where
  "map_wrapped para para_start [] st = st"
| "map_wrapped para para_start (w_line # wrapped) (c2p, para_char, lines, line_idx) =
     (let (c2p1, para_char1) = map_line_chars para_start line_idx 0 w_line (c2p, para_char);
          (c2p2, para_char2) =
             (if para_char1 < length para \<and> para ! para_char1 = SPC
              then (c2p1(int (para_start + para_char1) \<mapsto> (int line_idx, py_len w_line)),
                    Suc para_char1)
              else (c2p1, para_char1))
      in map_wrapped para para_start wrapped (c2p2, para_char2, lines @ [w_line], Suc line_idx))"

text \<open>\<open>for p_idx, para in enumerate(paragraphs)\<close>; \<open>n\<close> is \<open>len(paragraphs)\<close> and the
  state is \<open>(lines, char_to_pos, line_idx, para_start)\<close>.\<close>

fun wrap_paragraphs ::
    "int \<Rightarrow> nat \<Rightarrow> nat \<Rightarrow> string list \<Rightarrow> string list \<times> char_to_pos \<times> nat \<times> nat
      \<Rightarrow> py_error + (string list \<times> char_to_pos \<times> nat \<times> nat)" where
  "wrap_paragraphs cpl n p_idx [] st = Inr st"
| "wrap_paragraphs cpl n p_idx (para # paragraphs) (lines, c2p, line_idx, para_start) =
     (if para = [] then
        wrap_paragraphs cpl n (Suc p_idx) paragraphs
          (lines @ [[]],
           if int p_idx < int n - 1 then c2p(int para_start \<mapsto> (int line_idx, 0)) else c2p,
           Suc line_idx, Suc para_start)
      else
        (case textwrap_wrap para cpl of
           Inl e \<Rightarrow> Inl e
         | Inr wrapped0 \<Rightarrow>
            (let wrapped = (if wrapped0 = [] then [[]] else wrapped0);
                 (c2p1, para_char, lines1, line_idx1) =
                    map_wrapped para para_start wrapped (c2p, 0, lines, line_idx)
             in (case (if int p_idx < int n - 1
                       then (case py_index lines1 (- 1) of
                               Inl e \<Rightarrow> Inl e
                             | Inr l \<Rightarrow>
                                 Inr (c2p1(int (para_start + length para)
                                            \<mapsto> (int line_idx1 - 1, py_len l))))
                       else Inr c2p1) of
                   Inl e \<Rightarrow> Inl e
                 | Inr c2p2 \<Rightarrow>
                     wrap_paragraphs cpl n (Suc p_idx) paragraphs
                       (lines1, c2p2, line_idx1, para_start + length para + 1)))))"

text \<open>\<open>_wrap_with_cursor\<close>: \<open>(lines, cursor_line, cursor_col)\<close>.\<close>

definition wrap_with_cursor :: "app \<Rightarrow> py_error + (string list \<times> int \<times> int)" where
  "wrap_with_cursor self =
     (let cpl = chars_per_line self;
          text = doc_text self;
          paragraphs = split_nl text
      in case wrap_paragraphs cpl (length paragraphs) 0 paragraphs ([], Map.empty, 0, 0) of
           Inl e \<Rightarrow> Inl e
         | Inr (lines0, c2p, line_idx, para_start) \<Rightarrow>
            (let lines = (if lines0 = [] then [[]] else lines0)
             in if cursor self \<ge> py_len text then
                  (if lines \<noteq> [] then
                     (case py_index lines (- 1) of
                        Inl e \<Rightarrow> Inl e
                      | Inr l \<Rightarrow> Inr (lines, py_len lines - 1, py_len l))
                   else Inr (lines, 0, 0))
                else
                  (case c2p (cursor self) of
                     Some (cursor_line, cursor_col) \<Rightarrow> Inr (lines, cursor_line, cursor_col)
                   | None \<Rightarrow>
                      (case py_index lines (- 1) of
                         Inl e \<Rightarrow> Inl e
                       | Inr l \<Rightarrow> Inr (lines, py_len lines - 1, py_len l)))))"

section \<open>From a visual position back to a text index\<close>

text \<open>\<open>for w_line in wrapped\<close> of \<open>_pos_from_line_col\<close>: \<open>Inl\<close> is the value returned
  from inside the loop, \<open>Inr (para_char, line_idx)\<close> the state when the loop ends.\<close>

fun pos_wrapped ::
    "string \<Rightarrow> nat \<Rightarrow> int \<Rightarrow> int \<Rightarrow> string list \<Rightarrow> nat \<times> nat \<Rightarrow> int + nat \<times> nat" where
  "pos_wrapped para text_pos target_line target_col [] st = Inr st"
| "pos_wrapped para text_pos target_line target_col (w_line # wrapped) (para_char, line_idx) =
     (if int line_idx = target_line then
        (let col = min target_col (py_len w_line)
         in Inl (int text_pos + int para_char + col))
      else
        (let para_char1 = para_char + length w_line;
             para_char2 = (if para_char1 < length para \<and> para ! para_char1 = SPC
                           then Suc para_char1 else para_char1)
         in pos_wrapped para text_pos target_line target_col wrapped (para_char2, Suc line_idx)))"

text \<open>\<open>for para in text.split("\n")\<close>: \<open>Some\<close> is the value returned from inside the
  loop, \<open>None\<close> means the loop ended; the state is \<open>(line_idx, text_pos)\<close>.\<close>

fun pos_paragraphs ::
    "int \<Rightarrow> int \<Rightarrow> int \<Rightarrow> string list \<Rightarrow> nat \<times> nat \<Rightarrow> py_error + int option" where
  "pos_paragraphs cpl target_line target_col [] st = Inr None"
| "pos_paragraphs cpl target_line target_col (para # paragraphs) (line_idx, text_pos) =
     (if para = [] then
        (if int line_idx = target_line then Inr (Some (int text_pos + min target_col 0))
         else pos_paragraphs cpl target_line target_col paragraphs (Suc line_idx, Suc text_pos))
      else
        (case textwrap_wrap para cpl of
           Inl e \<Rightarrow> Inl e
         | Inr wrapped0 \<Rightarrow>
            (let wrapped = (if wrapped0 = [] then [[]] else wrapped0)
             in case pos_wrapped para text_pos target_line target_col wrapped (0, line_idx) of
                  Inl r \<Rightarrow> Inr (Some r)
                | Inr (para_char, line_idx1) \<Rightarrow>
                    pos_paragraphs cpl target_line target_col paragraphs
                      (line_idx1, text_pos + length para + 1))))"

text \<open>\<open>_pos_from_line_col\<close>; its parameter \<open>lines\<close> is not read by the source.\<close>

definition pos_from_line_col :: "app \<Rightarrow> string list \<Rightarrow> int \<Rightarrow> int \<Rightarrow> py_error + int" where
  "pos_from_line_col self lines target_line target_col =
     (let cpl = chars_per_line self;
          text = doc_text self
      in case pos_paragraphs cpl target_line target_col (split_nl text) (0, 0) of
           Inl e \<Rightarrow> Inl e
         | Inr (Some r) \<Rightarrow> Inr r
         | Inr None \<Rightarrow> Inr (py_len text))"

section \<open>Rendering\<close>

text \<open>The auto-scroll step of \<open>render\<close>: the new \<open>scroll_offset\<close>.\<close>

definition auto_scroll :: "int \<Rightarrow> int \<Rightarrow> int \<Rightarrow> int" where
  "auto_scroll cursor_line visible offset =
     (if cursor_line < offset then cursor_line
      else if cursor_line \<ge> offset + visible then cursor_line - visible + 1
      else offset)"

definition PORTRAIT_W :: int where "PORTRAIT_W = 300"
definition MARGIN_X :: int where "MARGIN_X = 10"

text \<open>\<open>render\<close>: the image and the application with its scroll offset adjusted.\<close>

definition render :: "app \<Rightarrow> py_error + image \<times> app" where
  "render self =
     (case wrap_with_cursor self of
        Inl e \<Rightarrow> Inl e
      | Inr (lines, cursor_line, cursor_col) \<Rightarrow>
         (let visible = lines_per_page self;
              self1 = self\<lparr>scroll_offset := auto_scroll cursor_line visible (scroll_offset self)\<rparr>;
              display_lines = slice lines (scroll_offset self1) (scroll_offset self1 + visible);
              vis_cursor_line = cursor_line - scroll_offset self1;
              cx = MARGIN_X + cursor_col * char_w self1;
              status = (\<lambda>cell. Page display_lines cell (dirty self1) (doc_path self1)
                                 (cursor_line + 1) (cursor_col + 1) (py_len (doc_text self1)))
          in if 0 \<le> vis_cursor_line \<and> vis_cursor_line < visible
                \<and> cx + char_w self1 \<le> PORTRAIT_W - MARGIN_X
             then
               (if cursor_line < py_len lines then
                  (case py_index lines cursor_line of
                     Inl e \<Rightarrow> Inl e
                   | Inr l \<Rightarrow>
                      (if cursor_col < py_len l then
                         (case py_index l cursor_col of
                            Inl e \<Rightarrow> Inl e
                          | Inr ch \<Rightarrow> Inr (status (Some (vis_cursor_line, cursor_col, Some ch)), self1))
                       else Inr (status (Some (vis_cursor_line, cursor_col, None)), self1)))
                else Inr (status (Some (vis_cursor_line, cursor_col, None)), self1))
             else Inr (status None, self1)))"

section \<open>Cursor movement helpers\<close>

definition cursor_up :: "app \<Rightarrow> py_error + app" where
  "cursor_up self =
     (case wrap_with_cursor self of
        Inl e \<Rightarrow> Inl e
      | Inr (lines, cur_line, cur_col) \<Rightarrow>
         (if cur_line = 0 then Inr self
          else
            (let target_line = cur_line - 1
             in case py_index lines target_line of
                  Inl e \<Rightarrow> Inl e
                | Inr l \<Rightarrow>
                   (let target_col = min cur_col (py_len l)
                    in case pos_from_line_col self lines target_line target_col of
                         Inl e \<Rightarrow> Inl e
                       | Inr pos \<Rightarrow> Inr (self\<lparr>cursor := pos\<rparr>)))))"

definition cursor_down :: "app \<Rightarrow> py_error + app" where
  "cursor_down self =
     (case wrap_with_cursor self of
        Inl e \<Rightarrow> Inl e
      | Inr (lines, cur_line, cur_col) \<Rightarrow>
         (if cur_line \<ge> py_len lines - 1 then Inr self
          else
            (let target_line = cur_line + 1
             in case py_index lines target_line of
                  Inl e \<Rightarrow> Inl e
                | Inr l \<Rightarrow>
                   (let target_col = min cur_col (py_len l)
                    in case pos_from_line_col self lines target_line target_col of
                         Inl e \<Rightarrow> Inl e
                       | Inr pos \<Rightarrow> Inr (self\<lparr>cursor := pos\<rparr>)))))"

section \<open>Document management\<close>

text \<open>
  The file system is the association list \<open>files\<close> from paths to contents; a path exists
  when it has an entry.  Directories are not modelled, so \<open>_ensure_docs_dir\<close> changes
  nothing.
\<close>

definition path_exists :: "app \<Rightarrow> string \<Rightarrow> bool" where
  "path_exists self path = (map_of (files self) path \<noteq> None)"

definition read_file :: "app \<Rightarrow> string \<Rightarrow> string" where
  "read_file self path = (case map_of (files self) path of Some content \<Rightarrow> content | None \<Rightarrow> [])"

definition write_file :: "string \<Rightarrow> string \<Rightarrow> app \<Rightarrow> app" where
  "write_file path content self = self\<lparr>files := AList.update path content (files self)\<rparr>"

text \<open>\<open>os.path.join(a, b)\<close>.\<close>

definition path_join :: "string \<Rightarrow> string \<Rightarrow> string" where
  "path_join a b =
     (if b \<noteq> [] \<and> hd b = CHR ''/'' then b
      else if a = [] \<or> last a = CHR ''/'' then a @ b
      else a @ ''/'' @ b)"

definition startswith :: "string \<Rightarrow> string \<Rightarrow> bool" where
  "startswith s pre = (take (length pre) s = pre)"

definition endswith :: "string \<Rightarrow> string \<Rightarrow> bool" where
  "endswith s suf = (length suf \<le> length s \<and> drop (length s - length suf) s = suf)"

definition LAST_DOC_FILE :: "app \<Rightarrow> string" where
  "LAST_DOC_FILE self = path_join (docs_dir self) ''.last_doc''"

definition get_last_doc_path :: "app \<Rightarrow> string option" where
  "get_last_doc_path self =
     (if path_exists self (LAST_DOC_FILE self) then
        (let path = py_strip (read_file self (LAST_DOC_FILE self))
         in if path_exists self path then Some path else None)
      else None)"

definition set_last_doc :: "string \<Rightarrow> app \<Rightarrow> app" where
  "set_last_doc path self = write_file (LAST_DOC_FILE self) path self"

definition new_doc_path :: "app \<Rightarrow> string" where
  "new_doc_path self = path_join (docs_dir self) (''doc_'' @ timestamp self @ ''.txt'')"

text \<open>A path given as \<open>None\<close> or as the empty string is false in a condition.\<close>

definition truthy :: "string option \<Rightarrow> bool" where
  "truthy path = (case path of None \<Rightarrow> False | Some p \<Rightarrow> p \<noteq> [])"

definition load_document :: "string option \<Rightarrow> app \<Rightarrow> app" where
  "load_document path self =
     (let self1 = (if truthy path \<and> path_exists self (the path)
                   then self\<lparr>doc_path := path\<rparr>
                   else self\<lparr>doc_path := get_last_doc_path self\<rparr>);
          self2 = (if truthy (doc_path self1) \<and> path_exists self1 (the (doc_path self1))
                   then self1\<lparr>doc_text := read_file self1 (the (doc_path self1))\<rparr>
                   else self1\<lparr>doc_path := Some (new_doc_path self1), doc_text := []\<rparr>);
          self3 = self2\<lparr>cursor := py_len (doc_text self2)\<rparr>;
          self4 = set_last_doc (the (doc_path self3)) self3
      in self4\<lparr>dirty := False\<rparr>)"

definition save_document :: "app \<Rightarrow> app" where
  "save_document self =
     (if truthy (doc_path self) then
        (let self1 = write_file (the (doc_path self)) (doc_text self) self;
             self2 = self1\<lparr>dirty := False\<rparr>
         in self2\<lparr>last_save_time := clock self2\<rparr>)
      else self)"

definition new_document :: "app \<Rightarrow> app" where
  "new_document self =
     (let self1 = save_document self;
          self2 = self1\<lparr>doc_path := Some (new_doc_path self1)\<rparr>;
          self3 = self2\<lparr>doc_text := [], cursor := 0, scroll_offset := 0\<rparr>;
          self4 = set_last_doc (the (doc_path self3)) self3
      in self4\<lparr>dirty := False, needs_display_update := True\<rparr>)"

text \<open>\<open>os.listdir(DOCS_DIR)\<close>: the names of the entries directly inside the directory.\<close>

definition listdir :: "app \<Rightarrow> string list" where
  "listdir self =
     (let pre = docs_dir self @ ''/''
      in remdups (map (\<lambda>p. drop (length pre) p)
           (filter (\<lambda>p. startswith p pre \<and> length pre < length p
                       \<and> CHR ''/'' \<notin> set (drop (length pre) p))
              (map fst (files self)))))"

definition list_docs :: "app \<Rightarrow> string list" where
  "list_docs self =
     (let docs = sort (filter (\<lambda>f. endswith f ''.txt'' \<and> startswith f ''doc_'') (listdir self))
      in map (\<lambda>f. path_join (docs_dir self) f) docs)"

text \<open>\<open>docs.index(x)\<close>: the first position of \<open>x\<close>, \<open>None\<close> where Python raises ValueError.\<close>

fun index_of :: "'a list \<Rightarrow> 'a \<Rightarrow> nat option" where
  "index_of [] x = None"
| "index_of (y # ys) x = (if y = x then Some 0 else map_option Suc (index_of ys x))"

definition switch_document :: "int \<Rightarrow> app \<Rightarrow> app" where
  "switch_document direction self =
     (let self1 = save_document self;
          docs = list_docs self1
      in if docs = [] then self1
         else
           (let idx = (case (case doc_path self1 of None \<Rightarrow> None | Some p \<Rightarrow> index_of docs p) of
                         Some i \<Rightarrow> int i
                       | None \<Rightarrow> py_len docs - 1);
                new_idx = idx + direction
            in if new_idx < 0 \<or> new_idx \<ge> py_len docs then self1
               else (load_document (Some (docs ! nat new_idx)) self1)\<lparr>needs_display_update := True\<rparr>))"

section \<open>Key codes and the key map\<close>

text \<open>
  The constants of \<open>evdev.ecodes\<close> that the program names, with their values in the
  Linux input event interface.
\<close>

definition EV_KEY :: int where "EV_KEY = 1"

definition KEY_LEFTSHIFT :: int where "KEY_LEFTSHIFT = 42"
definition KEY_RIGHTSHIFT :: int where "KEY_RIGHTSHIFT = 54"
definition KEY_LEFTCTRL :: int where "KEY_LEFTCTRL = 29"
definition KEY_RIGHTCTRL :: int where "KEY_RIGHTCTRL = 97"
definition KEY_LEFT :: int where "KEY_LEFT = 105"
definition KEY_RIGHT :: int where "KEY_RIGHT = 106"
definition KEY_UP :: int where "KEY_UP = 103"
definition KEY_DOWN :: int where "KEY_DOWN = 108"
definition KEY_HOME :: int where "KEY_HOME = 102"
definition KEY_END :: int where "KEY_END = 107"
definition KEY_ENTER :: int where "KEY_ENTER = 28"
definition KEY_BACKSPACE :: int where "KEY_BACKSPACE = 14"
definition KEY_DELETE :: int where "KEY_DELETE = 111"
definition KEY_A :: int where "KEY_A = 30"
definition KEY_B :: int where "KEY_B = 48"
definition KEY_C :: int where "KEY_C = 46"
definition KEY_D :: int where "KEY_D = 32"
definition KEY_E :: int where "KEY_E = 18"
definition KEY_F :: int where "KEY_F = 33"
definition KEY_G :: int where "KEY_G = 34"
definition KEY_H :: int where "KEY_H = 35"
definition KEY_I :: int where "KEY_I = 23"
definition KEY_J :: int where "KEY_J = 36"
definition KEY_K :: int where "KEY_K = 37"
definition KEY_L :: int where "KEY_L = 38"
definition KEY_M :: int where "KEY_M = 50"
definition KEY_N :: int where "KEY_N = 49"
definition KEY_O :: int where "KEY_O = 24"
definition KEY_P :: int where "KEY_P = 25"
definition KEY_Q :: int where "KEY_Q = 16"
definition KEY_R :: int where "KEY_R = 19"
definition KEY_S :: int where "KEY_S = 31"
definition KEY_T :: int where "KEY_T = 20"
definition KEY_U :: int where "KEY_U = 22"
definition KEY_V :: int where "KEY_V = 47"
definition KEY_W :: int where "KEY_W = 17"
definition KEY_X :: int where "KEY_X = 45"
definition KEY_Y :: int where "KEY_Y = 21"
definition KEY_Z :: int where "KEY_Z = 44"
definition KEY_1 :: int where "KEY_1 = 2"
definition KEY_2 :: int where "KEY_2 = 3"
definition KEY_3 :: int where "KEY_3 = 4"
definition KEY_4 :: int where "KEY_4 = 5"
definition KEY_5 :: int where "KEY_5 = 6"
definition KEY_6 :: int where "KEY_6 = 7"
definition KEY_7 :: int where "KEY_7 = 8"
definition KEY_8 :: int where "KEY_8 = 9"
definition KEY_9 :: int where "KEY_9 = 10"
definition KEY_0 :: int where "KEY_0 = 11"
definition KEY_MINUS :: int where "KEY_MINUS = 12"
definition KEY_EQUAL :: int where "KEY_EQUAL = 13"
definition KEY_LEFTBRACE :: int where "KEY_LEFTBRACE = 26"
definition KEY_RIGHTBRACE :: int where "KEY_RIGHTBRACE = 27"
definition KEY_SEMICOLON :: int where "KEY_SEMICOLON = 39"
definition KEY_APOSTROPHE :: int where "KEY_APOSTROPHE = 40"
definition KEY_GRAVE :: int where "KEY_GRAVE = 41"
definition KEY_BACKSLASH :: int where "KEY_BACKSLASH = 43"
definition KEY_COMMA :: int where "KEY_COMMA = 51"
definition KEY_DOT :: int where "KEY_DOT = 52"
definition KEY_SLASH :: int where "KEY_SLASH = 53"
definition KEY_SPACE :: int where "KEY_SPACE = 57"
definition KEY_TAB :: int where "KEY_TAB = 15"

lemmas ecodes_defs =
  EV_KEY_def KEY_LEFTSHIFT_def KEY_RIGHTSHIFT_def KEY_LEFTCTRL_def KEY_RIGHTCTRL_def KEY_LEFT_def KEY_RIGHT_def
  KEY_UP_def KEY_DOWN_def KEY_HOME_def KEY_END_def KEY_ENTER_def KEY_BACKSPACE_def
  KEY_DELETE_def KEY_A_def KEY_B_def KEY_C_def KEY_D_def KEY_E_def
  KEY_F_def KEY_G_def KEY_H_def KEY_I_def KEY_J_def KEY_K_def
  KEY_L_def KEY_M_def KEY_N_def KEY_O_def KEY_P_def KEY_Q_def
  KEY_R_def KEY_S_def KEY_T_def KEY_U_def KEY_V_def KEY_W_def
  KEY_X_def KEY_Y_def KEY_Z_def KEY_1_def KEY_2_def KEY_3_def
  KEY_4_def KEY_5_def KEY_6_def KEY_7_def KEY_8_def KEY_9_def
  KEY_0_def KEY_MINUS_def KEY_EQUAL_def KEY_LEFTBRACE_def KEY_RIGHTBRACE_def KEY_SEMICOLON_def
  KEY_APOSTROPHE_def KEY_GRAVE_def KEY_BACKSLASH_def KEY_COMMA_def KEY_DOT_def KEY_SLASH_def
  KEY_SPACE_def KEY_TAB_def

text \<open>\<open>KEYMAP\<close>: key code to \<open>(normal, shifted)\<close>.\<close>

definition KEYMAP :: "(int \<times> string \<times> string) list" where
  "KEYMAP =
     [(KEY_A, ''a'', ''A''),
      (KEY_B, ''b'', ''B''),
      (KEY_C, ''c'', ''C''),
      (KEY_D, ''d'', ''D''),
      (KEY_E, ''e'', ''E''),
      (KEY_F, ''f'', ''F''),
      (KEY_G, ''g'', ''G''),
      (KEY_H, ''h'', ''H''),
      (KEY_I, ''i'', ''I''),
      (KEY_J, ''j'', ''J''),
      (KEY_K, ''k'', ''K''),
      (KEY_L, ''l'', ''L''),
      (KEY_M, ''m'', ''M''),
      (KEY_N, ''n'', ''N''),
      (KEY_O, ''o'', ''O''),
      (KEY_P, ''p'', ''P''),
      (KEY_Q, ''q'', ''Q''),
      (KEY_R, ''r'', ''R''),
      (KEY_S, ''s'', ''S''),
      (KEY_T, ''t'', ''T''),
      (KEY_U, ''u'', ''U''),
      (KEY_V, ''v'', ''V''),
      (KEY_W, ''w'', ''W''),
      (KEY_X, ''x'', ''X''),
      (KEY_Y, ''y'', ''Y''),
      (KEY_Z, ''z'', ''Z''),
      (KEY_1, ''1'', [CHR 0x21]),
      (KEY_2, ''2'', [CHR 0x40]),
      (KEY_3, ''3'', [CHR 0x23]),
      (KEY_4, ''4'', [CHR 0x24]),
      (KEY_5, ''5'', [CHR 0x25]),
      (KEY_6, ''6'', [CHR 0x5E]),
      (KEY_7, ''7'', [CHR 0x26]),
      (KEY_8, ''8'', [CHR 0x2A]),
      (KEY_9, ''9'', [CHR 0x28]),
      (KEY_0, ''0'', [CHR 0x29]),
      (KEY_MINUS, [CHR 0x2D], [CHR 0x5F]),
      (KEY_EQUAL, [CHR 0x3D], [CHR 0x2B]),
      (KEY_LEFTBRACE, [CHR 0x5B], [CHR 0x7B]),
      (KEY_RIGHTBRACE, [CHR 0x5D], [CHR 0x7D]),
      (KEY_SEMICOLON, [CHR 0x3B], [CHR 0x3A]),
      (KEY_APOSTROPHE, [CHR 0x27], [CHR 0x22]),
      (KEY_GRAVE, [CHR 0x60], [CHR 0x7E]),
      (KEY_BACKSLASH, [CHR 0x5C], [CHR 0x7C]),
      (KEY_COMMA, [CHR 0x2C], [CHR 0x3C]),
      (KEY_DOT, [CHR 0x2E], [CHR 0x3E]),
      (KEY_SLASH, [CHR 0x2F], [CHR 0x3F]),
      (KEY_SPACE, [CHR 0x20], [CHR 0x20]),
      (KEY_TAB, [CHR 0x20, CHR 0x20, CHR 0x20, CHR 0x20], [CHR 0x20, CHR 0x20, CHR 0x20, CHR 0x20])]"

section \<open>Sleep and wake\<close>

definition goodbye_sleep :: image where
  "goodbye_sleep = Goodbye [''Saved. Goodbye.'', ''Ctrl+Q to resume'']"

definition epd_do :: "epd_call \<Rightarrow> app \<Rightarrow> app" where
  "epd_do c self = self\<lparr>epd := epd self @ [c]\<rparr>"

text \<open>The \<open>for event in self.keyboard.read()\<close> loop of \<open>_wait_for_wake\<close>: the local
  \<open>ctrl_held\<close> at its end, and whether the function returned from inside it.\<close>

fun wake_events :: "event list \<Rightarrow> bool \<Rightarrow> bool \<times> bool" where
  "wake_events [] ctrl = (ctrl, False)"
| "wake_events ((etype, code, val) # events) ctrl =
     (if etype \<noteq> EV_KEY then wake_events events ctrl
      else if code = KEY_LEFTCTRL \<or> code = KEY_RIGHTCTRL then wake_events events (val \<noteq> 0)
      else if code = KEY_Q \<and> val = 1 \<and> ctrl then (ctrl, True)
      else wake_events events ctrl)"

text \<open>The application after one wait on the keyboard has ended.\<close>

definition after_wait :: "poll \<Rightarrow> app \<Rightarrow> app" where
  "after_wait p self =
     self\<lparr>clock := poll_time p, timestamp := poll_stamp p,
          running := running self \<and> \<not> poll_signal p\<rparr>"

text \<open>\<open>_wait_for_wake\<close>, over the remaining outcomes of waiting on the keyboard; \<open>None\<close>
  when they are used up before the function returns.\<close>

fun wait_for_wake :: "poll list \<Rightarrow> bool \<Rightarrow> app \<Rightarrow> app option" where
  "wait_for_wake polls ctrl self =
     (if \<not> running self then Some (self\<lparr>keyboard := polls\<rparr>)
      else
        (case polls of
           [] \<Rightarrow> None
         | p # polls' \<Rightarrow>
            (let self1 = after_wait p self
             in case poll_result p of
                  Ready events \<Rightarrow>
                    (let (ctrl', returned) = wake_events events ctrl
                     in if returned then Some (self1\<lparr>keyboard := polls'\<rparr>)
                        else wait_for_wake polls' ctrl' self1)
                | _ \<Rightarrow> wait_for_wake polls' ctrl self1)))"

definition sleep_mode :: "app \<Rightarrow> (py_error + app) option" where
  "sleep_mode self =
     (let self1 = epd_do Epd_sleep (epd_do (Epd_display goodbye_sleep) (epd_do Epd_init self))
      in case wait_for_wake (keyboard self1) False self1 of
           None \<Rightarrow> None
         | Some self2 \<Rightarrow>
            Some (case render (epd_do Epd_init self2) of
                    Inl e \<Rightarrow> Inl e
                  | Inr (img, self3) \<Rightarrow>
                      Inr ((epd_do Epd_init_partial (epd_do (Epd_display img) self3))
                             \<lparr>needs_display_update := False\<rparr>)))"

section \<open>Keyboard input\<close>

text \<open>
  A key handler returns \<open>Some (Inr self')\<close> when it returns normally, \<open>Some (Inl e)\<close> when
  it raises, and \<open>None\<close> when it is still waiting for the wake key after all modelled
  keyboard outcomes are used up.
\<close>

text \<open>The branches under \<open>if self.ctrl_held\<close>; \<open>None\<close> when no shortcut matches and the
  handler goes on to the unmodified bindings.\<close>

definition handle_ctrl :: "int \<Rightarrow> app \<Rightarrow> (py_error + app) option option" where
  "handle_ctrl keycode self =
     (if keycode = KEY_Q then Some (sleep_mode (save_document self))
      else if keycode = KEY_S then
        Some (Some (Inr ((save_document self)\<lparr>needs_display_update := True\<rparr>)))
      else if keycode = KEY_N then Some (Some (Inr (new_document self)))
      else if keycode = KEY_R then
        Some (Some (case render self of
                      Inl e \<Rightarrow> Inl e
                    | Inr (img, self1) \<Rightarrow>
                        Inr ((epd_do (Epd_full_refresh img) self1)\<lparr>needs_display_update := False\<rparr>)))
      else if keycode = KEY_LEFT then Some (Some (Inr (switch_document (- 1) self)))
      else if keycode = KEY_RIGHT then Some (Some (Inr (switch_document 1 self)))
      else None)"

text \<open>The bindings after the shortcuts, from the arrow keys to the regular characters.\<close>

definition handle_plain :: "int \<Rightarrow> app \<Rightarrow> py_error + app" where
  "handle_plain keycode self =
     (if keycode = KEY_LEFT then
        (if cursor self > 0
         then Inr (self\<lparr>cursor := cursor self - 1, needs_display_update := True\<rparr>)
         else Inr self)
      else if keycode = KEY_RIGHT then
        (if cursor self < py_len (doc_text self)
         then Inr (self\<lparr>cursor := cursor self + 1, needs_display_update := True\<rparr>)
         else Inr self)
      else if keycode = KEY_UP then
        (case cursor_up self of
           Inl e \<Rightarrow> Inl e
         | Inr self1 \<Rightarrow> Inr (self1\<lparr>needs_display_update := True\<rparr>))
      else if keycode = KEY_DOWN then
        (case cursor_down self of
           Inl e \<Rightarrow> Inl e
         | Inr self1 \<Rightarrow> Inr (self1\<lparr>needs_display_update := True\<rparr>))
      else if keycode = KEY_HOME then
        (case wrap_with_cursor self of
           Inl e \<Rightarrow> Inl e
         | Inr (lines, cur_line, cur_col) \<Rightarrow>
            (case pos_from_line_col self lines cur_line 0 of
               Inl e \<Rightarrow> Inl e
             | Inr pos \<Rightarrow> Inr (self\<lparr>cursor := pos, needs_display_update := True\<rparr>)))
      else if keycode = KEY_END then
        (case wrap_with_cursor self of
           Inl e \<Rightarrow> Inl e
         | Inr (lines, cur_line, cur_col) \<Rightarrow>
            (case py_index lines cur_line of
               Inl e \<Rightarrow> Inl e
             | Inr l \<Rightarrow>
                (case pos_from_line_col self lines cur_line (py_len l) of
                   Inl e \<Rightarrow> Inl e
                 | Inr pos \<Rightarrow> Inr (self\<lparr>cursor := pos, needs_display_update := True\<rparr>))))
      else if keycode = KEY_ENTER then
        Inr (self\<lparr>doc_text := slice_to (doc_text self) (cursor self) @ [NL]
                                  @ slice_from (doc_text self) (cursor self),
                  cursor := cursor self + 1, dirty := True, needs_display_update := True\<rparr>)
      else if keycode = KEY_BACKSPACE then
        (if cursor self > 0 then
           Inr (self\<lparr>doc_text := slice_to (doc_text self) (cursor self - 1)
                                     @ slice_from (doc_text self) (cursor self),
                     cursor := cursor self - 1, dirty := True, needs_display_update := True\<rparr>)
         else Inr self)
      else if keycode = KEY_DELETE then
        (if cursor self < py_len (doc_text self) then
           Inr (self\<lparr>doc_text := slice_to (doc_text self) (cursor self)
                                     @ slice_from (doc_text self) (cursor self + 1),
                     dirty := True, needs_display_update := True\<rparr>)
         else Inr self)
      else
        (case map_of KEYMAP keycode of
           Some (normal, shifted) \<Rightarrow>
             (let char = (if shift_held self then shifted else normal)
              in Inr (self\<lparr>doc_text := slice_to (doc_text self) (cursor self) @ char
                                         @ slice_from (doc_text self) (cursor self),
                         cursor := cursor self + py_len char,
                         dirty := True, needs_display_update := True\<rparr>))
         | None \<Rightarrow> Inr self))"

text \<open>\<open>_handle_key(keycode, value)\<close>.\<close>

definition handle_key :: "int \<Rightarrow> int \<Rightarrow> app \<Rightarrow> (py_error + app) option" where
  "handle_key keycode val self =
     (if keycode = KEY_LEFTSHIFT \<or> keycode = KEY_RIGHTSHIFT
      then Some (Inr (self\<lparr>shift_held := (val \<noteq> 0)\<rparr>))
      else if keycode = KEY_LEFTCTRL \<or> keycode = KEY_RIGHTCTRL
      then Some (Inr (self\<lparr>ctrl_held := (val \<noteq> 0)\<rparr>))
      else if val = 0 then Some (Inr self)
      else if ctrl_held self then
        (case handle_ctrl keycode self of
           Some r \<Rightarrow> r
         | None \<Rightarrow> Some (handle_plain keycode self))
      else Some (handle_plain keycode self))"

section \<open>The main loop\<close>

definition AUTOSAVE_INTERVAL :: real where "AUTOSAVE_INTERVAL = 10"

definition check_autosave :: "app \<Rightarrow> app" where
  "check_autosave self =
     (if dirty self \<and> clock self - last_save_time self \<ge> AUTOSAVE_INTERVAL
      then save_document self else self)"

text \<open>\<open>for event in self.keyboard.read()\<close> of \<open>_main_loop\<close>.\<close>

fun dispatch_events :: "event list \<Rightarrow> app \<Rightarrow> (py_error + app) option" where
  "dispatch_events [] self = Some (Inr self)"
| "dispatch_events ((etype, code, val) # events) self =
     (if etype = EV_KEY then
        (case handle_key code val self of
           None \<Rightarrow> None
         | Some (Inl e) \<Rightarrow> Some (Inl e)
         | Some (Inr self1) \<Rightarrow> dispatch_events events self1)
      else dispatch_events events self)"

text \<open>The partial update at the end of a pass of the loop.\<close>

definition update_display :: "app \<Rightarrow> py_error + app" where
  "update_display self =
     (if needs_display_update self then
        (case render self of
           Inl e \<Rightarrow> Inl e
         | Inr (img, self1) \<Rightarrow>
             Inr ((epd_do (Epd_display_image_partial img) self1)\<lparr>needs_display_update := False\<rparr>))
      else Inr self)"

text \<open>One pass of \<open>while self.running\<close> in \<open>_main_loop\<close>, given what its wait on the
  keyboard brings.\<close>

definition main_loop_body :: "poll \<Rightarrow> app \<Rightarrow> (py_error + app) option" where
  "main_loop_body p self =
     (let self1 = after_wait p self
      in case poll_result p of
           No_keyboard \<Rightarrow> Some (Inr (check_autosave self1))
         | Disconnected \<Rightarrow> Some (Inr self1)
         | r \<Rightarrow>
            (case (case r of Ready events \<Rightarrow> dispatch_events events self1 | _ \<Rightarrow> Some (Inr self1)) of
               None \<Rightarrow> None
             | Some (Inl e) \<Rightarrow> Some (Inl e)
             | Some (Inr self2) \<Rightarrow>
                (case update_display self2 of
                   Inl e \<Rightarrow> Some (Inl e)
                 | Inr self3 \<Rightarrow> Some (Inr (check_autosave self3)))))"

text \<open>\<open>_main_loop\<close> over the outcomes of its waits; \<open>None\<close> when they are used up while
  the loop is still running.\<close>

fun main_loop :: "poll list \<Rightarrow> app \<Rightarrow> (py_error + app) option" where
  "main_loop polls self =
     (if \<not> running self then Some (Inr self)
      else
        (case polls of
           [] \<Rightarrow> None
         | p # polls' \<Rightarrow>
            (case main_loop_body p self of
               None \<Rightarrow> None
             | Some (Inl e) \<Rightarrow> Some (Inl e)
             | Some (Inr self1) \<Rightarrow> main_loop polls' self1)))"

declare wait_for_wake.simps [simp del] main_loop.simps [simp del]

section \<open>The freshly constructed application\<close>

text \<open>\<open>EtyperApp.__init__\<close>, in a world given by its files, documents directory, clock
  reading and time stamp.  The font width is set later by \<open>_calc_text_metrics\<close>; the
  constructor's state carries the one passed here.\<close>

definition init_app :: "(string \<times> string) list \<Rightarrow> string \<Rightarrow> real \<Rightarrow> string \<Rightarrow> int \<Rightarrow> app" where
  "init_app fs dir now stamp cw =
     \<lparr>doc_text = [], cursor = 0, doc_path = None, running = False, dirty = False,
      last_save_time = now, shift_held = False, ctrl_held = False,
      chars_per_line = 30, lines_per_page = 20, char_w = cw,
      needs_display_update = True, scroll_offset = 0,
      files = fs, docs_dir = dir, clock = now, timestamp = stamp, epd = [], keyboard = []\<rparr>"

text \<open>An application holding the given text with the cursor at the given offset, in an
  empty world; the wrap width is its third argument.\<close>

definition editing :: "string \<Rightarrow> int \<Rightarrow> int \<Rightarrow> app" where
  "editing t c w =
     (init_app [] ''/root/etyper_docs'' 0 ''20240101_000000'' 9)
       \<lparr>doc_text := t, cursor := c, chars_per_line := w, running := True\<rparr>"

section \<open>Notions used in the statements\<close>

subsection \<open>Full pushes and idle waits\<close>

text \<open>The calls that push a whole frame with a full refresh.\<close>

definition is_full_push :: "epd_call \<Rightarrow> bool" where
  "is_full_push c = (case c of Epd_display img \<Rightarrow> True | Epd_full_refresh img \<Rightarrow> True | _ \<Rightarrow> False)"

definition no_key_event :: "poll \<Rightarrow> bool" where
  "no_key_event p =
     (case poll_result p of
        Ready events \<Rightarrow> list_all (\<lambda>(etype, code, val). etype \<noteq> EV_KEY) events
      | _ \<Rightarrow> True)"

text \<open>A wait that times out at the given clock reading, with or without a signal.\<close>

definition quiet :: "real \<Rightarrow> bool \<Rightarrow> poll" where
  "quiet t sig = \<lparr>poll_time = t, poll_stamp = ''20240101_001640'', poll_signal = sig, poll_result = Timeout\<rparr>"

subsection \<open>A document directory\<close>

text \<open>Two persisted documents; the second is open, edited and not yet saved.\<close>

definition two_docs :: app where
  "two_docs =
     (editing ''two!'' 4 30)
       \<lparr>files := [(''/root/etyper_docs/doc_20240101_000000.txt'', ''one''),
                  (''/root/etyper_docs/doc_20240102_000000.txt'', ''two'')],
        doc_path := Some ''/root/etyper_docs/doc_20240102_000000.txt'',
        dirty := True\<rparr>"

subsection \<open>Wrap points\<close>




subsection \<open>Re-joining and single-spaced text\<close>

text \<open>
  Re-joining, following the words of the specification: the lines give the text back
  when, between each two consecutive lines, either nothing (a hard break inside a long
  word), one space (consumed at a wrap point) or one newline (a paragraph boundary) is
  put back, and nothing is added before the first or after the last line.
\<close>

fun rejoinable :: "string \<Rightarrow> string list \<Rightarrow> bool" where
  "rejoinable t [] = False"
| "rejoinable t [l] = (t = l)"
| "rejoinable t (l # l' # ls) =
     (take (length l) t = l \<and>
      (let r = drop (length l) t
       in rejoinable r (l' # ls)
          \<or> (r \<noteq> [] \<and> (hd r = SPC \<or> hd r = NL) \<and> rejoinable (tl r) (l' # ls))))"

text \<open>A word chunk: not empty and free of every character that \<open>str.strip()\<close> removes.\<close>

definition word :: "string \<Rightarrow> bool" where
  "word c = (c \<noteq> [] \<and> (\<forall>x \<in> set c. \<not> py_isspace x))"

text \<open>Chunk lists of single-spaced paragraphs: words and single spaces, each space
  followed by a word.\<close>

fun wf_chunks :: "string list \<Rightarrow> bool" where
  "wf_chunks [] = True"
| "wf_chunks [c] = word c"
| "wf_chunks (c # d # cs) = ((word c \<or> c = [SPC] \<and> word d) \<and> wf_chunks (d # cs))"

text \<open>
  A text is single-spaced when its only whitespace characters are newlines and spaces,
  every space stands between two characters that are not whitespace, and so no paragraph
  begins or ends with a space.
\<close>

fun spaced :: "string \<Rightarrow> bool" where
  "spaced [] = True"
| "spaced [c] = (\<not> py_isspace c)"
| "spaced (c # d # cs) = ((\<not> py_isspace c \<or> c = SPC \<and> \<not> py_isspace d) \<and> spaced (d # cs))"

definition nice_para :: "string \<Rightarrow> bool" where
  "nice_para p = (p = [] \<or> hd p \<noteq> SPC \<and> spaced p)"

definition single_spaced :: "string \<Rightarrow> bool" where
  "single_spaced t = list_all nice_para (split_nl t)"

section \<open>Viewport\<close>

text \<open>
  Claim C5.  For every cursor line that is not negative, every scroll offset that is not
  negative and every count of visible lines that is at least 1, the scroll offset that the
  auto-scroll step of \<open>render\<close> computes is at most the cursor line, the cursor line is
  below that offset plus the visible count, and the offset is not negative.
\<close>

theorem auto_scroll_keeps_cursor_visible:
  assumes "0 \<le> cursor_line" and "0 \<le> offset" and "1 \<le> visible"
  shows "auto_scroll cursor_line visible offset \<le> cursor_line
       \<and> cursor_line < auto_scroll cursor_line visible offset + visible
       \<and> 0 \<le> auto_scroll cursor_line visible offset"
  using assms by (auto simp: auto_scroll_def)

theorem auto_scroll_keeps_cursor_visible_witness:
  "(0::int) \<le> 25 \<and> (0::int) \<le> 0 \<and> (1::int) \<le> 20
   \<and> auto_scroll 25 20 0 = 6
   \<and> auto_scroll 25 20 0 \<le> 25 \<and> 25 < auto_scroll 25 20 0 + 20 \<and> 0 \<le> auto_scroll 25 20 0"
  using auto_scroll_keeps_cursor_visible [of 25 0 20] by (simp add: auto_scroll_def)

lemma render_scroll_offset:
  assumes "render self = Inr (img, self')" and "wrap_with_cursor self = Inr (lines, cl, cc)"
  shows "scroll_offset self' = auto_scroll cl (lines_per_page self) (scroll_offset self)"
  using assms
  by (auto simp: render_def Let_def split: if_splits sum.splits)

section \<open>Saving\<close>

lemma save_document_fields:
  "doc_text (save_document self) = doc_text self"
  "cursor (save_document self) = cursor self"
  "doc_path (save_document self) = doc_path self"
  "scroll_offset (save_document self) = scroll_offset self"
  "docs_dir (save_document self) = docs_dir self"
  "keyboard (save_document self) = keyboard self"
  "epd (save_document self) = epd self"
  by (simp_all add: save_document_def write_file_def Let_def)

text \<open>
  Claim C9.  \<open>save_document\<close> leaves the text, the cursor, the document path and the
  scroll offset as they are.  On the session state it changes at most the dirty flag and
  the time of the last save (the third field it changes is the file system, where the
  text is written).  When the path is unset it changes nothing at all, and when the path
  is set the dirty flag is cleared and the time of the last save is the clock reading.
\<close>

theorem save_document_frame:
  "doc_text (save_document self) = doc_text self
   \<and> cursor (save_document self) = cursor self
   \<and> doc_path (save_document self) = doc_path self
   \<and> scroll_offset (save_document self) = scroll_offset self
   \<and> (\<exists>d t fs. save_document self = self\<lparr>dirty := d, last_save_time := t, files := fs\<rparr>)
   \<and> (doc_path self = None \<longrightarrow> save_document self = self)
   \<and> (truthy (doc_path self) \<longrightarrow>
         \<not> dirty (save_document self) \<and> last_save_time (save_document self) = clock self)"
proof -
  have "\<exists>d t fs. save_document self = self\<lparr>dirty := d, last_save_time := t, files := fs\<rparr>"
  proof (cases "truthy (doc_path self)")
    case True
    then have "save_document self
        = self\<lparr>dirty := False, last_save_time := clock self,
               files := AList.update (the (doc_path self)) (doc_text self) (files self)\<rparr>"
      by (simp add: save_document_def write_file_def Let_def)
    then show ?thesis by blast
  next
    case False
    then have "save_document self
        = self\<lparr>dirty := dirty self, last_save_time := last_save_time self, files := files self\<rparr>"
      by (simp add: save_document_def)
    then show ?thesis by blast
  qed
  then show ?thesis
    by (simp add: save_document_def write_file_def truthy_def Let_def)
qed

theorem save_document_frame_witness:
  "doc_path (editing ''ab'' 1 30) = None
   \<and> save_document (editing ''ab'' 1 30) = editing ''ab'' 1 30
   \<and> truthy (doc_path ((editing ''ab'' 1 30)\<lparr>doc_path := Some ''/d/doc_1.txt'', dirty := True, clock := 7\<rparr>))
   \<and> \<not> dirty (save_document ((editing ''ab'' 1 30)\<lparr>doc_path := Some ''/d/doc_1.txt'', dirty := True, clock := 7\<rparr>))
   \<and> last_save_time (save_document ((editing ''ab'' 1 30)\<lparr>doc_path := Some ''/d/doc_1.txt'', dirty := True, clock := 7\<rparr>)) = 7"
  using save_document_frame [of "editing ''ab'' 1 30"]
    save_document_frame [of "(editing ''ab'' 1 30)\<lparr>doc_path := Some ''/d/doc_1.txt'', dirty := True, clock := 7\<rparr>"]
  by (simp add: editing_def init_app_def truthy_def)

section \<open>Backspace\<close>

lemma handle_ctrl_backspace: "handle_ctrl KEY_BACKSPACE self = None"
  by (simp add: handle_ctrl_def ecodes_defs)

lemma handle_key_backspace:
  "val \<noteq> 0 \<Longrightarrow> handle_key KEY_BACKSPACE val self = Some (handle_plain KEY_BACKSPACE self)"
  by (simp add: handle_key_def handle_ctrl_backspace) (simp add: ecodes_defs)

text \<open>
  Claim C6, amended.  A Backspace press (or repeat) with the cursor at 0 returns the
  state as it is: text, cursor and dirty flag unchanged.  With the cursor at an offset
  above 0 and at most the length of the text, it removes exactly the character before
  the cursor, moves the cursor back by one and sets the dirty flag.  Held modifier keys
  make no difference.
\<close>

theorem backspace_key:
  assumes "val \<noteq> 0"
  shows "(cursor self = 0 \<longrightarrow> handle_key KEY_BACKSPACE val self = Some (Inr self))
       \<and> (0 < cursor self \<and> cursor self \<le> py_len (doc_text self) \<longrightarrow>
            (\<exists>self'. handle_key KEY_BACKSPACE val self = Some (Inr self')
               \<and> doc_text self' = take (nat (cursor self) - 1) (doc_text self)
                                  @ drop (nat (cursor self)) (doc_text self)
               \<and> length (doc_text self') = length (doc_text self) - 1
               \<and> cursor self' = cursor self - 1
               \<and> dirty self'))"
proof (intro conjI impI)
  assume "cursor self = 0"
  then show "handle_key KEY_BACKSPACE val self = Some (Inr self)"
    using handle_key_backspace [OF assms, of self] by (simp add: handle_plain_def ecodes_defs)
next
  assume c: "0 < cursor self \<and> cursor self \<le> py_len (doc_text self)"
  have n: "nat (cursor self - 1) = nat (cursor self) - 1" by simp
  show "\<exists>self'. handle_key KEY_BACKSPACE val self = Some (Inr self')
               \<and> doc_text self' = take (nat (cursor self) - 1) (doc_text self)
                                  @ drop (nat (cursor self)) (doc_text self)
               \<and> length (doc_text self') = length (doc_text self) - 1
               \<and> cursor self' = cursor self - 1
               \<and> dirty self'"
    using c handle_key_backspace [OF assms, of self]
    by (auto simp: handle_plain_def ecodes_defs slice_to_def slice_from_def py_len_def n)
qed

theorem backspace_key_witness:
  "(1::int) \<noteq> 0
   \<and> cursor (editing ''abc'' 0 30) = 0
   \<and> handle_key KEY_BACKSPACE 1 (editing ''abc'' 0 30) = Some (Inr (editing ''abc'' 0 30))
   \<and> 0 < cursor (editing ''abc'' 2 30) \<and> cursor (editing ''abc'' 2 30) \<le> py_len (doc_text (editing ''abc'' 2 30))
   \<and> handle_key KEY_BACKSPACE 1 (editing ''abc'' 2 30)
       = Some (Inr ((editing ''ac'' 1 30)\<lparr>dirty := True\<rparr>))"
  using backspace_key [of 1 "editing ''abc'' 0 30"] backspace_key [of 1 "editing ''abc'' 2 30"]
    handle_key_backspace [of 1 "editing ''abc'' 2 30"]
  by (simp add: handle_plain_def ecodes_defs slice_to_def slice_from_def
      py_len_def editing_def init_app_def)

text \<open>
  Claim C6 fails as stated.  The claim speaks of every cursor above 0.  With the text a tab
  followed by \<open>a\<close> and the cursor at its end, End puts the cursor at 9, beyond the two
  characters of the text.  Backspace there removes no character: the text stays as it is,
  while the cursor goes back to 8 and the dirty flag is set.
\<close>

theorem backspace_beyond_text_deletes_nothing:
  "handle_key KEY_END 1 (editing [TAB, CHR ''a''] 2 30) = Some (Inr (editing [TAB, CHR ''a''] 9 30))
   \<and> 0 < cursor (editing [TAB, CHR ''a''] 9 30)
   \<and> handle_key KEY_BACKSPACE 1 (editing [TAB, CHR ''a''] 9 30)
        = Some (Inr ((editing [TAB, CHR ''a''] 8 30)\<lparr>dirty := True\<rparr>))
   \<and> doc_text ((editing [TAB, CHR ''a''] 8 30)\<lparr>dirty := True\<rparr>)
        = doc_text (editing [TAB, CHR ''a''] 9 30)"
  by code_simp

section \<open>The inverse mapping past the last line\<close>

lemma map_wrapped_lines:
  "map_wrapped para ps wrapped (c2p, pc, lines, li) = (c2p', pc', lines', li')
     \<Longrightarrow> lines' = lines @ wrapped \<and> li' = li + length wrapped"
proof (induction wrapped arbitrary: c2p pc lines li)
  case Nil
  then show ?case by simp
next
  case (Cons w_line wrapped)
  obtain c2p1 pc1 where m: "map_line_chars ps li 0 w_line (c2p, pc) = (c2p1, pc1)"
    by (cases "map_line_chars ps li 0 w_line (c2p, pc)") auto
  from Cons.prems m obtain c2p2 pc2 where
    "map_wrapped para ps wrapped (c2p2, pc2, lines @ [w_line], Suc li) = (c2p', pc', lines', li')"
    by (auto simp: Let_def split: if_splits)
  from Cons.IH [OF this] show ?case by simp
qed

lemma wrap_paragraphs_lines_mono:
  "wrap_paragraphs cpl n i ps (lines, c2p, li, pst) = Inr (lines', c2p', li', pst')
     \<Longrightarrow> length lines \<le> length lines'"
proof (induction ps arbitrary: lines c2p li pst i)
  case Nil
  then show ?case by simp
next
  case (Cons para ps)
  show ?case
  proof (cases "para = []")
    case True
    with Cons.prems Cons.IH [of "Suc i" "lines @ [[]]"] show ?thesis
      by (fastforce split: if_splits)
  next
    case False
    from Cons.prems False obtain wrapped0 where w0: "textwrap_wrap para cpl = Inr wrapped0"
      by (cases "textwrap_wrap para cpl") auto
    define wrapped where "wrapped = (if wrapped0 = [] then [[]] else wrapped0)"
    obtain c2p1 pc lines1 li1 where mw:
      "map_wrapped para pst wrapped (c2p, 0, lines, li) = (c2p1, pc, lines1, li1)"
      by (cases "map_wrapped para pst wrapped (c2p, 0, lines, li)") auto
    from map_wrapped_lines [OF mw] have l1: "lines1 = lines @ wrapped" by simp
    from Cons.prems False w0 mw obtain c2p2 where
      "wrap_paragraphs cpl n (Suc i) ps (lines1, c2p2, li1, pst + length para + 1)
         = Inr (lines', c2p', li', pst')"
      by (auto simp: wrapped_def [symmetric] Let_def split: sum.splits if_splits)
    from Cons.IH [OF this] l1 show ?thesis by simp
  qed
qed

lemma pos_wrapped_past:
  "int li + int (length wrapped) \<le> tgt
     \<Longrightarrow> \<exists>pc'. pos_wrapped para tp tgt tc wrapped (pc, li) = Inr (pc', li + length wrapped)"
proof (induction wrapped arbitrary: pc li)
  case Nil
  then show ?case by simp
next
  case (Cons w_line wrapped)
  from Cons.prems have ne: "int li \<noteq> tgt" and rest: "int (Suc li) + int (length wrapped) \<le> tgt"
    by simp_all
  define pc2 where "pc2 = (if pc + length w_line < length para \<and> para ! (pc + length w_line) = SPC
                           then Suc (pc + length w_line) else pc + length w_line)"
  from Cons.IH [OF rest, of pc2] obtain pc' where
    "pos_wrapped para tp tgt tc wrapped (pc2, Suc li) = Inr (pc', Suc li + length wrapped)" by blast
  with ne show ?case by (simp add: Let_def pc2_def)
qed

lemma pos_paragraphs_past:
  "wrap_paragraphs cpl n i ps (lines, c2p, li, pst) = Inr (lines', c2p', li', pst')
     \<Longrightarrow> int li0 + int (length lines') - int (length lines) \<le> tgt
     \<Longrightarrow> pos_paragraphs cpl tgt tc ps (li0, tp) = Inr None"
proof (induction ps arbitrary: lines c2p li pst i li0 tp)
  case Nil
  then show ?case by simp
next
  case (Cons para ps)
  show ?case
  proof (cases "para = []")
    case True
    with Cons.prems(1) have rec:
      "wrap_paragraphs cpl n (Suc i) ps
         (lines @ [[]], if int i < int n - 1 then c2p(int pst \<mapsto> (int li, 0)) else c2p, Suc li, Suc pst)
         = Inr (lines', c2p', li', pst')"
      by simp
    from wrap_paragraphs_lines_mono [OF rec] have "Suc (length lines) \<le> length lines'" by simp
    with Cons.prems(2) have ne: "int li0 \<noteq> tgt" by linarith
    from Cons.prems(2) have "int (Suc li0) + int (length lines') - int (length (lines @ [[]])) \<le> tgt"
      by simp
    from Cons.IH [OF rec this] True ne show ?thesis by simp
  next
    case False
    from Cons.prems False obtain wrapped0 where w0: "textwrap_wrap para cpl = Inr wrapped0"
      by (cases "textwrap_wrap para cpl") auto
    define wrapped where "wrapped = (if wrapped0 = [] then [[]] else wrapped0)"
    obtain c2p1 pc lines1 li1 where mw:
      "map_wrapped para pst wrapped (c2p, 0, lines, li) = (c2p1, pc, lines1, li1)"
      by (cases "map_wrapped para pst wrapped (c2p, 0, lines, li)") auto
    from map_wrapped_lines [OF mw] have l1: "lines1 = lines @ wrapped" by simp
    from Cons.prems(1) False w0 mw obtain c2p2 where rec:
      "wrap_paragraphs cpl n (Suc i) ps (lines1, c2p2, li1, pst + length para + 1)
         = Inr (lines', c2p', li', pst')"
      by (auto simp: wrapped_def [symmetric] Let_def split: sum.splits if_splits)
    from wrap_paragraphs_lines_mono [OF rec] l1
    have "length lines + length wrapped \<le> length lines'" by simp
    with Cons.prems(2) have past: "int li0 + int (length wrapped) \<le> tgt" by linarith
    from pos_wrapped_past [OF past] obtain pc' where pw:
      "pos_wrapped para tp tgt tc wrapped (0, li0) = Inr (pc', li0 + length wrapped)" by blast
    from Cons.prems(2) l1
    have "int (li0 + length wrapped) + int (length lines') - int (length lines1) \<le> tgt"
      by simp
    from Cons.IH [OF rec this]
    show ?thesis using False w0 pw by (simp add: wrapped_def [symmetric] Let_def)
  qed
qed

text \<open>
  Claim C10.  When the target line is at or beyond the number of visual lines that
  \<open>_wrap_with_cursor\<close> produces, \<open>_pos_from_line_col\<close> returns the length of the text,
  whatever the target column and whatever list of lines it is handed.
\<close>

theorem pos_from_line_col_past_end:
  assumes "wrap_with_cursor self = Inr (lines, cursor_line, cursor_col)"
    and "py_len lines \<le> target_line"
  shows "pos_from_line_col self any_lines target_line target_col = Inr (py_len (doc_text self))"
proof -
  from assms(1) obtain lines0 c2p li pst where wp:
    "wrap_paragraphs (chars_per_line self) (length (split_nl (doc_text self))) 0
       (split_nl (doc_text self)) ([], Map.empty, 0, 0) = Inr (lines0, c2p, li, pst)"
    and l: "lines = (if lines0 = [] then [[]] else lines0)"
    by (auto simp: wrap_with_cursor_def Let_def split: sum.splits if_splits option.splits prod.splits)
  from l have "length lines0 \<le> length lines" by simp
  with assms(2) have "int 0 + int (length lines0) - int (length ([]::string list)) \<le> target_line"
    by (simp add: py_len_def)
  from pos_paragraphs_past [OF wp this]
  show ?thesis by (simp add: pos_from_line_col_def Let_def)
qed

theorem pos_from_line_col_past_end_witness:
  "wrap_with_cursor (editing ''hello world'' 3 5) = Inr ([''hello'', ''world''], 0, 3)
   \<and> py_len [''hello'', ''world''] \<le> 2
   \<and> pos_from_line_col (editing ''hello world'' 3 5) [''hello'', ''world''] 2 4 = Inr 11"
proof -
  have w: "wrap_with_cursor (editing ''hello world'' 3 5) = Inr ([''hello'', ''world''], 0, 3)"
    by code_simp
  have l: "py_len [''hello'', ''world''] \<le> 2"
    by (simp add: py_len_def)
  from pos_from_line_col_past_end [OF w l, of "[''hello'', ''world'']" 4] w l
  show ?thesis by (simp add: editing_def init_app_def py_len_def)
qed

section \<open>Refresh policy of the main loop\<close>

lemma render_epd: "render self = Inr (img, self') \<Longrightarrow> epd self' = epd self"
  by (auto simp: render_def Let_def split: sum.splits prod.splits if_splits)

lemma update_display_no_full:
  "update_display self = Inr self' \<Longrightarrow>
     filter is_full_push (epd self') = filter is_full_push (epd self)"
  by (auto simp: update_display_def epd_do_def is_full_push_def dest: render_epd
      split: if_splits sum.splits)

lemma check_autosave_epd: "epd (check_autosave self) = epd self"
  by (simp add: check_autosave_def save_document_fields)

lemma dispatch_no_key_events:
  "list_all (\<lambda>(etype, code, val). etype \<noteq> EV_KEY) events \<Longrightarrow> dispatch_events events self = Some (Inr self)"
  by (induction events) auto

lemma main_loop_body_no_full:
  assumes "no_key_event p" and "main_loop_body p self = Some (Inr self')"
  shows "filter is_full_push (epd self') = filter is_full_push (epd self)"
proof -
  have aw: "epd (after_wait p self) = epd self" by (simp add: after_wait_def)
  show ?thesis
  proof (cases "poll_result p")
    case No_keyboard
    with assms(2) aw show ?thesis by (auto simp: main_loop_body_def Let_def check_autosave_epd)
  next
    case Timeout
    with assms(2) aw show ?thesis
      by (auto simp: main_loop_body_def Let_def check_autosave_epd split: sum.splits
          dest!: update_display_no_full)
  next
    case (Ready events)
    with assms(1) have "dispatch_events events (after_wait p self) = Some (Inr (after_wait p self))"
      by (simp add: no_key_event_def dispatch_no_key_events)
    with Ready assms(2) aw show ?thesis
      by (auto simp: main_loop_body_def Let_def check_autosave_epd split: sum.splits
          dest!: update_display_no_full)
  next
    case Disconnected
    with assms(2) aw show ?thesis by (auto simp: main_loop_body_def Let_def)
  qed
qed

text \<open>
  Claim C8, as the code behaves.  The claim asks for a step of the main loop that pushes a
  full-refresh frame on a fixed, time-triggered cadence.  The loop has no such step: over
  any number of passes in which no key event arrives, whatever the clock readings are,
  the display receives no full-frame push (\<open>display\<close> or \<open>full_refresh\<close>); the only
  frames the loop itself pushes are partial ones.
\<close>

theorem idle_main_loop_never_full_refresh:
  assumes "list_all no_key_event polls" and "main_loop polls self = Some (Inr self')"
  shows "filter is_full_push (epd self') = filter is_full_push (epd self)"
  using assms
proof (induction polls arbitrary: self)
  case Nil
  then show ?case by (simp add: main_loop.simps split: if_splits)
next
  case (Cons p polls)
  show ?case
  proof (cases "running self")
    case False
    with Cons.prems(2) show ?thesis by (simp add: main_loop.simps)
  next
    case True
    with Cons.prems(2) obtain self1 where b: "main_loop_body p self = Some (Inr self1)"
      and r: "main_loop polls self1 = Some (Inr self')"
      by (auto simp: main_loop.simps [of "p # polls"] split: option.splits sum.splits)
    from Cons.prems(1) have "no_key_event p" "list_all no_key_event polls" by simp_all
    from main_loop_body_no_full [OF this(1) b] Cons.IH [OF this(2) r] show ?thesis by simp
  qed
qed

theorem idle_main_loop_never_full_refresh_witness:
  "list_all no_key_event [quiet 400 False, quiet 1000 True]
   \<and> (\<exists>self'. main_loop [quiet 400 False, quiet 1000 True] (editing ''a'' 1 30) = Some (Inr self')
         \<and> clock self' = 1000
         \<and> epd self' = [Epd_display_image_partial (Page [''a''] (Some (0, 1, None)) False None 1 2 1)]
         \<and> filter is_full_push (epd self') = filter is_full_push (epd (editing ''a'' 1 30)))"
proof -
  have idle: "list_all no_key_event [quiet 400 False, quiet 1000 True]"
    by (simp add: no_key_event_def quiet_def)
  have run: "main_loop [quiet 400 False, quiet 1000 True] (editing ''a'' 1 30)
      = Some (Inr ((editing ''a'' 1 30)\<lparr>running := False, needs_display_update := False,
           clock := 1000, timestamp := ''20240101_001640'',
           epd := [Epd_display_image_partial (Page [''a''] (Some (0, 1, None)) False None 1 2 1)]\<rparr>))"
    by code_simp
  from idle_main_loop_never_full_refresh [OF idle run] idle run show ?thesis
    by simp
qed

section \<open>Cursor mapping on text with dropped whitespace\<close>

text \<open>
  Claim C2, as the code behaves.  The claim asks that mapping an offset to its visual
  position and back returns the offset.  After typing \<open>a\<close> and a space, with the cursor
  at offset 2 (the end of the text) and 30 characters per line, the wrapper has dropped
  the trailing space: the only visual line is \<open>a\<close>, the cursor maps to line 0, column 1,
  and the inverse mapping takes that position to offset 1, not 2.
\<close>

theorem trailing_space_mapping_not_inverse:
  "wrap_with_cursor (editing ''a '' 2 30) = Inr ([''a''], 0, 1)
   \<and> pos_from_line_col (editing ''a '' 2 30) [''a''] 0 (min 1 (py_len ''a'')) = Inr 1
   \<and> cursor (editing ''a '' 2 30) = 2"
  by code_simp

text \<open>
  Claim C4, as the code behaves.  The claim asks that no key handler moves the cursor out
  of the range from 0 to the length of the text.  With the text a tab followed by \<open>a\<close>
  (length 2, as read from a document file), the cursor at offset 2 and 30 characters per
  line, pressing End sets the cursor to 9: the wrapper expands the tab to eight spaces
  and the inverse mapping counts the characters of the expanded line.
\<close>

theorem end_key_leaves_text_with_tab:
  "handle_key KEY_END 1 (editing [TAB, CHR ''a''] 2 30)
     = Some (Inr ((editing [TAB, CHR ''a''] 9 30)\<lparr>needs_display_update := True\<rparr>))
   \<and> py_len (doc_text (editing [TAB, CHR ''a''] 2 30)) = 2"
  by code_simp

section \<open>Switching documents at the boundary\<close>

text \<open>
  Claim C7 fails as stated.  With the last of two documents open and dirty, switching to
  the next document loads nothing, but the dirty flag does not stay as before: the switch
  saves first and so clears it.
\<close>

theorem switch_next_at_last_clears_dirty:
  "list_docs two_docs = [''/root/etyper_docs/doc_20240101_000000.txt'',
                         ''/root/etyper_docs/doc_20240102_000000.txt'']
   \<and> doc_path two_docs = Some (last (list_docs two_docs))
   \<and> dirty two_docs
   \<and> \<not> dirty (switch_document 1 two_docs)"
  by code_simp

text \<open>
  Claim C7, amended.  When the current document is found at the last index of the sorted
  document list, a switch with direction next does exactly what saving does, and at the
  first index a switch with direction previous does the same: nothing is loaded, text,
  cursor and path stay as they are, and the dirty flag is cleared by the save that every
  switch starts with.
\<close>

theorem switch_document_at_boundary:
  assumes "doc_path self = Some p" and "docs = list_docs (save_document self)"
  shows "(index_of docs p = Some (length docs - 1) \<longrightarrow> switch_document 1 self = save_document self)
       \<and> (index_of docs p = Some 0 \<longrightarrow> switch_document (- 1) self = save_document self)
       \<and> doc_text (save_document self) = doc_text self
       \<and> cursor (save_document self) = cursor self
       \<and> doc_path (save_document self) = doc_path self
       \<and> (p \<noteq> [] \<longrightarrow> \<not> dirty (save_document self))"
proof (intro conjI impI)
  assume i: "index_of docs p = Some (length docs - 1)"
  then have ne: "docs \<noteq> []" by auto
  then have "int (length docs - 1) + 1 = int (length docs)" by (cases docs) auto
  with i ne assms show "switch_document 1 self = save_document self"
    by (simp add: switch_document_def Let_def save_document_fields py_len_def)
next
  assume i: "index_of docs p = Some 0"
  with assms show "switch_document (- 1) self = save_document self"
    by (simp add: switch_document_def Let_def save_document_fields py_len_def)
next
  assume "p \<noteq> []"
  with assms(1) show "\<not> dirty (save_document self)"
    by (simp add: save_document_def truthy_def write_file_def Let_def)
qed (simp_all add: save_document_fields)

theorem switch_document_at_boundary_witness:
  "doc_path two_docs = Some ''/root/etyper_docs/doc_20240102_000000.txt''
   \<and> index_of (list_docs (save_document two_docs)) ''/root/etyper_docs/doc_20240102_000000.txt''
        = Some (length (list_docs (save_document two_docs)) - 1)
   \<and> switch_document 1 two_docs = save_document two_docs
   \<and> doc_text (switch_document 1 two_docs) = ''two!''
   \<and> cursor (switch_document 1 two_docs) = 4
   \<and> doc_path (two_docs\<lparr>doc_path := Some ''/root/etyper_docs/doc_20240101_000000.txt''\<rparr>)
        = Some ''/root/etyper_docs/doc_20240101_000000.txt''
   \<and> index_of (list_docs (save_document (two_docs\<lparr>doc_path := Some ''/root/etyper_docs/doc_20240101_000000.txt''\<rparr>)))
        ''/root/etyper_docs/doc_20240101_000000.txt'' = Some 0
   \<and> switch_document (- 1) (two_docs\<lparr>doc_path := Some ''/root/etyper_docs/doc_20240101_000000.txt''\<rparr>)
        = save_document (two_docs\<lparr>doc_path := Some ''/root/etyper_docs/doc_20240101_000000.txt''\<rparr>)
   \<and> \<not> dirty (save_document two_docs)"
proof -
  have p: "doc_path two_docs = Some ''/root/etyper_docs/doc_20240102_000000.txt''"
    by code_simp
  have i: "index_of (list_docs (save_document two_docs)) ''/root/etyper_docs/doc_20240102_000000.txt''
        = Some (length (list_docs (save_document two_docs)) - 1)"
    by code_simp
  have p': "doc_path (two_docs\<lparr>doc_path := Some ''/root/etyper_docs/doc_20240101_000000.txt''\<rparr>)
        = Some ''/root/etyper_docs/doc_20240101_000000.txt''"
    by simp
  have i': "index_of (list_docs (save_document (two_docs\<lparr>doc_path := Some ''/root/etyper_docs/doc_20240101_000000.txt''\<rparr>)))
        ''/root/etyper_docs/doc_20240101_000000.txt'' = Some 0"
    by code_simp
  have t: "doc_text two_docs = ''two!''" "cursor two_docs = 4"
    by (simp_all add: two_docs_def editing_def init_app_def)
  from switch_document_at_boundary [OF p refl] switch_document_at_boundary [OF p' refl] p i p' i' t
  show ?thesis by simp
qed

section \<open>Spaces consumed at wrap points\<close>





lemma split_nl_concat: "concat (map (\<lambda>p. p @ [NL]) (split_nl t)) = t @ [NL]"
proof (induction t)
  case Nil
  then show ?case by simp
next
  case (Cons c t)
  then show ?case by (cases "split_nl t") auto
qed










section \<open>Round trip of the wrapped lines\<close>

lemma isspace_SPC [simp]: "py_isspace SPC"
  by (simp add: py_isspace_def SPC_def)

lemma not_word_SPC [simp]: "\<not> word [SPC]" "\<not> word []"
  by (simp_all add: word_def)

lemma word_strip: "word c \<Longrightarrow> \<not> strip_is_empty c"
  by (cases c) (auto simp: word_def strip_is_empty_def)

lemma strip_SPC [simp]: "strip_is_empty [SPC]" "strip_is_empty []"
  by (simp_all add: strip_is_empty_def)

lemma wf_chunks_tl: "wf_chunks (c # cs) \<Longrightarrow> wf_chunks cs"
  by (cases cs) auto

lemma wf_chunks_hd: "wf_chunks (c # cs) \<Longrightarrow> word c \<or> c = [SPC]"
  by (cases cs) auto

lemma wf_chunks_after_SPC: "wf_chunks ([SPC] # cs) \<Longrightarrow> cs \<noteq> [] \<and> word (hd cs)"
  by (cases cs) auto

lemma wf_chunks_replace: "wf_chunks (c # cs) \<Longrightarrow> word c' \<Longrightarrow> wf_chunks (c' # cs)"
  by (cases cs) auto

lemma wf_chunks_append: "wf_chunks (pre @ rest) \<Longrightarrow> wf_chunks rest"
  by (induction pre) (auto dest: wf_chunks_tl)

lemma wf_chunks_last: "wf_chunks cs \<Longrightarrow> cs \<noteq> [] \<Longrightarrow> word (last cs)"
  by (induction cs rule: wf_chunks.induct) auto

lemma wf_chunks_SPC_then: "wf_chunks (pre @ rest) \<Longrightarrow> pre \<noteq> [] \<Longrightarrow> last pre = [SPC] \<Longrightarrow> rest \<noteq> [] \<and> word (hd rest)"
proof (induction pre)
  case Nil
  then show ?case by simp
next
  case (Cons c pre)
  show ?case
  proof (cases "pre = []")
    case True
    with Cons.prems show ?thesis by (auto dest: wf_chunks_after_SPC)
  next
    case False
    with Cons show ?thesis by (auto dest: wf_chunks_tl)
  qed
qed

lemma take_fitting_split:
  "take_fitting w cl0 n0 cs = (cl, n, rest) \<Longrightarrow>
     \<exists>pre. cl = cl0 @ pre \<and> cs = pre @ rest \<and> n = n0 + length (concat pre)
        \<and> (rest \<noteq> [] \<longrightarrow> n + length (hd rest) > w)"
proof (induction cs arbitrary: cl0 n0)
  case Nil
  then show ?case by simp
next
  case (Cons c cs)
  show ?case
  proof (cases "n0 + length c \<le> w")
    case True
    with Cons.prems have "take_fitting w (cl0 @ [c]) (n0 + length c) cs = (cl, n, rest)" by simp
    from Cons.IH [OF this] obtain pre where
      "cl = (cl0 @ [c]) @ pre" "cs = pre @ rest" "n = n0 + length c + length (concat pre)"
      "rest \<noteq> [] \<longrightarrow> n + length (hd rest) > w" by blast
    then show ?thesis by (intro exI [of _ "c # pre"]) simp
  next
    case False
    with Cons.prems show ?thesis by (intro exI [of _ "[]"]) auto
  qed
qed

lemma take_fitting_bound:
  "take_fitting w cl0 n0 cs = (cl, n, rest) \<Longrightarrow> n0 \<le> w \<Longrightarrow> n \<le> w"
  by (induction cs arbitrary: cl0 n0) (auto split: if_splits)

lemma word_take: "word c \<Longrightarrow> 0 < k \<Longrightarrow> word (take k c)"
proof -
  assume wc: "word c" and k: "0 < k"
  then have "take k c \<noteq> []" by (cases c) (auto simp: word_def)
  moreover have "\<forall>x \<in> set (take k c). \<not> py_isspace x"
    using wc by (auto simp: word_def dest: in_set_takeD)
  ultimately show ?thesis by (simp add: word_def)
qed

lemma word_drop: "word c \<Longrightarrow> k < length c \<Longrightarrow> word (drop k c)"
  by (auto simp: word_def dest: in_set_dropD)

lemma wrap_step_word:
  assumes w: "1 \<le> w" and wf: "wf_chunks cs" and ne: "cs \<noteq> []" and hd: "word (hd cs)"
  shows "\<exists>line sep cs'. wrap_step w lines cs = (lines @ [line], cs')
           \<and> concat cs = line @ sep @ concat cs'
           \<and> (sep = [] \<or> sep = [SPC] \<and> cs' \<noteq> [] \<and> word (hd cs'))
           \<and> wf_chunks cs'"
proof -
  obtain cl n rest where tf: "take_fitting w [] 0 cs = (cl, n, rest)"
    by (cases "take_fitting w [] 0 cs") auto
  from take_fitting_split [OF tf] have sp: "cs = cl @ rest" "n = length (concat cl)"
    and full: "rest \<noteq> [] \<longrightarrow> n + length (hd rest) > w" by auto
  from take_fitting_bound [OF tf] have nw: "n \<le> w" by simp
  from wf sp have wfr: "wf_chunks rest" by (auto dest: wf_chunks_append)
  have c1: "(if strip_is_empty (hd cs) \<and> lines \<noteq> [] then tl cs else cs) = cs"
    using hd by (simp add: word_strip)
  show ?thesis
  proof (cases "rest = []")
    case True
    with sp have cl: "cl = cs" by simp
    from wf_chunks_last [OF wf ne] have "\<not> strip_is_empty (last cs)" by (rule word_strip)
    then have "wrap_step w lines cs = (lines @ [concat cs], [])"
      using True cl ne by (simp add: wrap_step_def c1 tf)
    then show ?thesis by (intro exI [of _ "concat cs"] exI [of _ "[]"]) simp
  next
    case False
    then obtain chunk rest' where r: "rest = chunk # rest'" by (cases rest) auto
    from wfr r have chunk: "word chunk \<or> chunk = [SPC]" by (auto dest: wf_chunks_hd)
    show ?thesis
    proof (cases "length chunk > w")
      case long: True
      with chunk w have wc: "word chunk" by (auto simp: SPC_def)
      have hl: "handle_long_word (chunk # rest') cl n w
                  = (drop (w - n) chunk # rest', cl @ [take (w - n) chunk])"
        using w nw by (simp add: handle_long_word_def slice_to_def slice_from_def Let_def nat_diff_distrib)
      show ?thesis
      proof (cases "n = w")
        case True
        with sp w have clne: "cl \<noteq> []" by auto
        from hl True have hl': "handle_long_word (chunk # rest') cl w w = (chunk # rest', cl @ [[]])"
          by simp
        have "wrap_step w lines cs = (lines @ [concat cl], rest)"
          using True r long clne by (simp add: wrap_step_def c1 tf hl')
        with sp wfr show ?thesis
          by (intro exI [of _ "concat cl"] exI [of _ "[]"] exI [of _ rest]) simp
      next
        case False
        with nw have lt: "0 < w - n" by simp
        from word_take [OF wc lt] have wt: "word (take (w - n) chunk)" .
        from long have "w - n < length chunk" by simp
        from word_drop [OF wc this] have wd: "word (drop (w - n) chunk)" .
        from wt have "\<not> strip_is_empty (take (w - n) chunk)" by (rule word_strip)
        then have "wrap_step w lines cs
              = (lines @ [concat (cl @ [take (w - n) chunk])], drop (w - n) chunk # rest')"
          using r long by (simp add: wrap_step_def c1 tf hl)
        moreover have "concat cs = concat (cl @ [take (w - n) chunk]) @ [] @ concat (drop (w - n) chunk # rest')"
          using sp r by simp
        moreover have "wf_chunks (drop (w - n) chunk # rest')"
          using wfr r wd by (auto intro: wf_chunks_replace)
        ultimately show ?thesis by blast
      qed
    next
      case short: False
      from full r short have "n \<noteq> 0" by auto
      with sp have clne: "cl \<noteq> []" by auto
      have cs3: "wrap_step w lines cs =
          (lines @ [concat (if strip_is_empty (last cl) then butlast cl else cl)], rest)
          \<or> (strip_is_empty (last cl) \<and> butlast cl = [])"
        using r short clne by (auto simp: wrap_step_def c1 tf)
      show ?thesis
      proof (cases "strip_is_empty (last cl)")
        case True
        from clne sp have "last cl \<in> set cs" by auto
        with wf have "word (last cl) \<or> last cl = [SPC]"
          by (induction cs rule: wf_chunks.induct) auto
        with True have lastc: "last cl = [SPC]" by (auto dest: word_strip)
        have hdcl: "hd cl = hd cs" using sp clne by (cases cl) auto
        have bne: "butlast cl \<noteq> []"
        proof
          assume "butlast cl = []"
          with clne have "cl = [last cl]" by (metis append_butlast_last_id append_Nil)
          with lastc hdcl hd show False by (metis list.sel(1) not_word_SPC(1))
        qed
        from wf sp clne lastc have nxt: "rest \<noteq> [] \<and> word (hd rest)"
          by (auto dest: wf_chunks_SPC_then)
        have "cl = butlast cl @ [[SPC]]" using clne lastc by (metis append_butlast_last_id)
        then have "concat cl = concat (butlast cl) @ [SPC]" by (metis concat.simps concat_append append_Nil2)
        then have cc: "concat cs = concat (butlast cl) @ [SPC] @ concat rest"
          using sp by simp
        from cs3 True bne have "wrap_step w lines cs = (lines @ [concat (butlast cl)], rest)"
          by simp
        with cc nxt wfr show ?thesis by blast
      next
        case False
        with cs3 have "wrap_step w lines cs = (lines @ [concat cl], rest)" by simp
        moreover have "concat cs = concat cl @ [] @ concat rest" using sp by simp
        ultimately show ?thesis using wfr by blast
      qed
    qed
  qed
qed

lemma wrap_step_drop_space:
  assumes "cs = [SPC] # cs1" and "cs1 \<noteq> []" and "word (hd cs1)" and "lines \<noteq> []"
  shows "wrap_step w lines cs = wrap_step w lines cs1"
  using assms by (simp add: wrap_step_def word_strip)

lemma rejoinable_cons:
  "ls \<noteq> [] \<Longrightarrow>
   rejoinable r ls \<or> (r \<noteq> [] \<and> (hd r = SPC \<or> hd r = NL) \<and> rejoinable (tl r) ls) \<Longrightarrow>
   rejoinable (l @ r) (l # ls)"
  by (cases ls) (auto simp: Let_def)

lemma rejoinable_nonempty: "rejoinable t ls \<Longrightarrow> ls \<noteq> []"
  by auto

lemma wrap_loop_rejoin:
  "1 \<le> w \<Longrightarrow> wf_chunks cs \<Longrightarrow> (lines = [] \<longrightarrow> cs = [] \<or> word (hd cs)) \<Longrightarrow>
     \<exists>ls. wrap_loop w lines cs = lines @ ls
        \<and> (cs = [] \<and> ls = []
            \<or> cs \<noteq> [] \<and> rejoinable (concat (if hd cs = [SPC] then tl cs else cs)) ls)"
proof (induction w lines cs rule: wrap_loop.induct)
  case (1 width lines chunks)
  show ?case
  proof (cases "chunks = []")
    case True
    then show ?thesis by (simp add: wrap_loop.simps)
  next
    case ne: False
    define cs1 where "cs1 = (if hd chunks = [SPC] then tl chunks else chunks)"
    have cs1: "cs1 \<noteq> [] \<and> word (hd cs1) \<and> wf_chunks cs1
               \<and> wrap_step width lines chunks = wrap_step width lines cs1"
    proof (cases "hd chunks = [SPC]")
      case True
      with ne have c: "chunks = [SPC] # tl chunks" by (cases chunks) auto
      with "1.prems"(2) have a: "tl chunks \<noteq> [] \<and> word (hd (tl chunks))"
        by (metis wf_chunks_after_SPC)
      from True "1.prems"(3) ne have "lines \<noteq> []" by auto
      with wrap_step_drop_space [OF c] a
      have "wrap_step width lines chunks = wrap_step width lines (tl chunks)" by simp
      moreover from c "1.prems"(2) have "wf_chunks (tl chunks)" by (metis wf_chunks_tl)
      ultimately show ?thesis using True a by (simp add: cs1_def)
    next
      case False
      from ne "1.prems"(2) have "word (hd chunks) \<or> hd chunks = [SPC]"
        by (cases chunks) (auto dest: wf_chunks_hd)
      with False ne "1.prems"(2) show ?thesis by (simp add: cs1_def)
    qed
    from wrap_step_word [of width cs1 lines] cs1 "1.prems"(1)
    obtain line sep cs' where st: "wrap_step width lines chunks = (lines @ [line], cs')"
      and cc: "concat cs1 = line @ sep @ concat cs'"
      and sep: "sep = [] \<or> sep = [SPC] \<and> cs' \<noteq> [] \<and> word (hd cs')"
      and wf': "wf_chunks cs'"
      by auto
    from "1.IH" [OF ne st [symmetric] "1.prems"(1) wf']
    obtain ls' where lp: "wrap_loop width (lines @ [line]) cs' = (lines @ [line]) @ ls'"
      and rj: "cs' = [] \<and> ls' = []
          \<or> cs' \<noteq> [] \<and> rejoinable (concat (if hd cs' = [SPC] then tl cs' else cs')) ls'"
      by auto
    have loop: "wrap_loop width lines chunks = lines @ (line # ls')"
      using ne st lp by (simp add: wrap_loop.simps [of width lines chunks])
    have "rejoinable (concat cs1) (line # ls')"
    proof (cases "cs' = []")
      case True
      with rj sep cc show ?thesis by auto
    next
      case False
      with rj have r: "rejoinable (concat (if hd cs' = [SPC] then tl cs' else cs')) ls'" by simp
      then have lne: "ls' \<noteq> []" by (rule rejoinable_nonempty)
      have "rejoinable (line @ (sep @ concat cs')) (line # ls')"
      proof (rule rejoinable_cons [OF lne])
        show "rejoinable (sep @ concat cs') ls'
              \<or> (sep @ concat cs' \<noteq> [] \<and> (hd (sep @ concat cs') = SPC \<or> hd (sep @ concat cs') = NL)
                  \<and> rejoinable (tl (sep @ concat cs')) ls')"
        proof (cases "sep = []")
          case True
          show ?thesis
          proof (cases "hd cs' = [SPC]")
            case True
            with False have "cs' = [SPC] # tl cs'" by (cases cs') auto
            then have "concat cs' = SPC # concat (tl cs')" by (metis concat.simps(2) append_Cons append_Nil)
            with r True \<open>sep = []\<close> show ?thesis by simp
          next
            case False
            with r True show ?thesis by simp
          qed
        next
          case False
          with sep have s: "sep = [SPC]" "word (hd cs')" by auto
          then have "hd cs' \<noteq> [SPC]" by auto
          with r s show ?thesis by simp
        qed
      qed
      with cc show ?thesis by simp
    qed
    with loop ne show ?thesis by (simp add: cs1_def)
  qed
qed

lemma length_concat_butlast: "length (concat (butlast xs)) \<le> length (concat xs)"
  by (induction xs) auto

lemma wrap_step_lengths:
  assumes w: "1 \<le> w" and st: "wrap_step w lines cs = (lines', cs')"
    and old: "\<forall>l \<in> set lines. length l \<le> w"
  shows "\<forall>l \<in> set lines'. length l \<le> w"
proof -
  define chunks1 where "chunks1 = (if strip_is_empty (hd cs) \<and> lines \<noteq> [] then tl cs else cs)"
  obtain cl n rest where tf: "take_fitting w [] 0 chunks1 = (cl, n, rest)"
    by (cases "take_fitting w [] 0 chunks1") auto
  from take_fitting_split [OF tf] have n: "n = length (concat cl)" by auto
  from take_fitting_bound [OF tf] have nw: "n \<le> w" by simp
  obtain chunks3 cur_line2 where h:
    "(if rest \<noteq> [] \<and> length (hd rest) > w then handle_long_word rest cl n w else (rest, cl))
       = (chunks3, cur_line2)"
    by (cases "if rest \<noteq> [] \<and> length (hd rest) > w then handle_long_word rest cl n w else (rest, cl)")
       auto
  have l2: "length (concat cur_line2) \<le> w"
    using n nw w h
    by (auto simp: handle_long_word_def slice_to_def Let_def split: if_splits)
  define cur_line3 where "cur_line3 =
     (if cur_line2 \<noteq> [] \<and> strip_is_empty (last cur_line2) then butlast cur_line2 else cur_line2)"
  have l3: "length (concat cur_line3) \<le> w"
    using l2 length_concat_butlast [of cur_line2] by (auto simp: cur_line3_def)
  have "lines' = (if cur_line3 \<noteq> [] then lines @ [concat cur_line3] else lines)"
    using st
    by (auto simp: wrap_step_def chunks1_def [symmetric] tf h cur_line3_def Let_def)
  with l3 old show ?thesis by auto
qed

lemma wrap_loop_lengths:
  "1 \<le> w \<Longrightarrow> \<forall>l \<in> set lines. length l \<le> w \<Longrightarrow>
     \<forall>l \<in> set (wrap_loop w lines cs). length l \<le> w"
proof (induction w lines cs rule: wrap_loop.induct)
  case (1 width lines chunks)
  show ?case
  proof (cases "chunks = []")
    case True
    with "1.prems" show ?thesis by (simp add: wrap_loop.simps)
  next
    case False
    obtain lines' chunks' where st: "wrap_step width lines chunks = (lines', chunks')"
      by (cases "wrap_step width lines chunks") auto
    from wrap_step_lengths [OF "1.prems"(1) st "1.prems"(2)]
    have "\<forall>l \<in> set lines'. length l \<le> width" .
    from "1.IH" [OF False st [symmetric] "1.prems"(1) this] False st
    show ?thesis by (simp add: wrap_loop.simps [of width lines chunks])
  qed
qed

lemma isspace_TAB [simp]: "py_isspace TAB"
  by (simp add: py_isspace_def TAB_def)

lemma is_ws_isspace: "is_ws c \<Longrightarrow> py_isspace c"
  by (auto simp: is_ws_def py_isspace_def)

lemma is_ws_SPC [simp]: "is_ws SPC"
  by (simp add: is_ws_def SPC_def)

lemma TAB_not_SPC [simp]: "TAB \<noteq> SPC"
  by (simp add: TAB_def SPC_def)

lemma expandtabs_no_tab: "TAB \<notin> set s \<Longrightarrow> expandtabs ts col s = s"
  by (induction s arbitrary: col) auto

lemma spaced_chars: "spaced p \<Longrightarrow> x \<in> set p \<Longrightarrow> py_isspace x \<Longrightarrow> x = SPC"
  by (induction p rule: spaced.induct) auto

lemma spaced_munge: "spaced p \<Longrightarrow> munge_whitespace p = p"
proof -
  assume sp: "spaced p"
  then have "TAB \<notin> set p" using spaced_chars [of p TAB] by auto
  then have "expandtabs 8 0 p = p" by (rule expandtabs_no_tab)
  moreover have "map (\<lambda>c. if is_ws c then SPC else c) p = p"
  proof (rule map_idI)
    fix x assume "x \<in> set p"
    with sp show "(if is_ws x then SPC else x) = x"
      by (auto dest: spaced_chars is_ws_isspace)
  qed
  ultimately show ?thesis by (simp add: munge_whitespace_def)
qed

lemma split_simple_hd: "\<exists>ds chs. split_simple (d # cs) = (d # ds) # chs"
  by (cases "split_simple cs") (auto split: list.splits)

lemma split_simple_concat: "concat (split_simple s) = s"
  by (induction s) (auto split: list.splits)

lemma word_Cons: "\<not> py_isspace c \<Longrightarrow> word ch \<Longrightarrow> word (c # ch)"
  by (simp add: word_def)

lemma spaced_split:
  "spaced p \<Longrightarrow> p \<noteq> [] \<Longrightarrow>
     wf_chunks (split_simple p) \<and> split_simple p \<noteq> []
     \<and> (hd p \<noteq> SPC \<longrightarrow> word (hd (split_simple p)))"
proof (induction p rule: spaced.induct)
  case 1
  then show ?case by simp
next
  case (2 c)
  then show ?case by (simp add: word_def)
next
  case (3 c d cs)
  from "3.prems" have sp: "spaced (d # cs)" and cd: "\<not> py_isspace c \<or> c = SPC \<and> \<not> py_isspace d"
    by simp_all
  from "3.IH" [OF sp] have wf: "wf_chunks (split_simple (d # cs))"
    and hdw: "d \<noteq> SPC \<longrightarrow> word (hd (split_simple (d # cs)))" by simp_all
  from split_simple_hd obtain ds chs where s: "split_simple (d # cs) = (d # ds) # chs" by blast
  from wf s have ch: "word (d # ds) \<or> d # ds = [SPC]" by (auto dest: wf_chunks_hd)
  from sp have dsp: "py_isspace d \<Longrightarrow> d = SPC" using spaced_chars [of "d # cs" d] by simp
  show ?case
  proof (cases "is_ws c = is_ws d")
    case True
    have nc: "\<not> py_isspace c" and nd: "\<not> py_isspace d"
      using cd True dsp is_ws_isspace [of c] is_ws_isspace [of d] by auto
    with ch have "word (d # ds)" by auto
    with nc have "word (c # d # ds)" by (rule word_Cons)
    with wf s have "wf_chunks ((c # d # ds) # chs)" by (auto intro: wf_chunks_replace)
    with True s \<open>word (c # d # ds)\<close> show ?thesis by simp
  next
    case False
    have res: "split_simple (c # d # cs) = [c] # (d # ds) # chs"
      using False s by simp
    show ?thesis
    proof (cases "c = SPC")
      case True
      with cd have "\<not> py_isspace d" by auto
      with ch have "word (d # ds)" by auto
      with wf s res True show ?thesis by simp
    next
      case False
      with cd have "\<not> py_isspace c" by auto
      then have "word [c]" by (simp add: word_def)
      with wf s res show ?thesis by simp
    qed
  qed
qed

lemma nice_para_wrap:
  assumes "1 \<le> cpl" and "nice_para p" and "p \<noteq> []"
  shows "\<exists>ls. textwrap_wrap p cpl = Inr ls \<and> rejoinable p ls"
proof -
  from assms(2,3) have sp: "spaced p" and h: "hd p \<noteq> SPC" by (auto simp: nice_para_def)
  from spaced_split [OF sp assms(3)] h
  have wf: "wf_chunks (split_simple p)" and ne: "split_simple p \<noteq> []"
    and hw: "word (hd (split_simple p))" by auto
  from assms(1) have w: "1 \<le> nat cpl" by simp
  from wrap_loop_rejoin [OF w wf, of "[]"] hw ne
  obtain ls where l: "wrap_loop (nat cpl) [] (split_simple p) = ls"
    and r: "rejoinable (concat (if hd (split_simple p) = [SPC] then tl (split_simple p) else split_simple p)) ls"
    by auto
  from hw have "hd (split_simple p) \<noteq> [SPC]" by auto
  with r have "rejoinable p ls" by (simp add: split_simple_concat)
  moreover have "textwrap_wrap p cpl = Inr ls"
    using assms(1) l by (simp add: textwrap_wrap_def wrap_chunks_def split_chunks_def spaced_munge [OF sp])
  ultimately show ?thesis by blast
qed

lemma textwrap_wrap_lengths:
  assumes "1 \<le> cpl" 
  shows "\<exists>ls. textwrap_wrap p cpl = Inr ls \<and> (\<forall>l \<in> set ls. py_len l \<le> cpl)"
proof -
  from assms have w: "1 \<le> nat cpl" by simp
  from wrap_loop_lengths [OF w, of "[]" "split_chunks p"]
  have "\<forall>l \<in> set (wrap_loop (nat cpl) [] (split_chunks p)). length l \<le> nat cpl" by simp
  then have "\<forall>l \<in> set (wrap_loop (nat cpl) [] (split_chunks p)). py_len l \<le> cpl"
    using assms by (auto simp: py_len_def)
  with assms show ?thesis by (simp add: textwrap_wrap_def wrap_chunks_def)
qed

lemma rejoinable_newline:
  "rejoinable t1 ls1 \<Longrightarrow> rejoinable t2 ls2 \<Longrightarrow> rejoinable (t1 @ NL # t2) (ls1 @ ls2)"
proof (induction t1 ls1 rule: rejoinable.induct)
  case (1 t)
  then show ?case by simp
next
  case (2 t l)
  then have "t = l" by simp
  moreover have "rejoinable (l @ (NL # t2)) (l # ls2)"
    using "2.prems"(2) by (intro rejoinable_cons) auto
  ultimately show ?case by simp
next
  case (3 t l l' ls)
  define r where "r = drop (length l) t"
  from "3.prems"(1) have tk: "take (length l) t = l"
    and alt: "rejoinable r (l' # ls) \<or> (r \<noteq> [] \<and> (hd r = SPC \<or> hd r = NL) \<and> rejoinable (tl r) (l' # ls))"
    by (simp_all add: r_def Let_def)
  from tk have t: "t = l @ r" by (metis append_take_drop_id r_def)
  have "rejoinable (l @ (r @ NL # t2)) (l # ((l' # ls) @ ls2))"
  proof (rule rejoinable_cons)
    show "(l' # ls) @ ls2 \<noteq> []" by simp
    from alt show "rejoinable (r @ NL # t2) ((l' # ls) @ ls2)
        \<or> (r @ NL # t2 \<noteq> [] \<and> (hd (r @ NL # t2) = SPC \<or> hd (r @ NL # t2) = NL)
            \<and> rejoinable (tl (r @ NL # t2)) ((l' # ls) @ ls2))"
    proof
      assume "rejoinable r (l' # ls)"
      from "3.IH"(1) [OF r_def this "3.prems"(2)] show ?thesis by simp
    next
      assume a: "r \<noteq> [] \<and> (hd r = SPC \<or> hd r = NL) \<and> rejoinable (tl r) (l' # ls)"
      then have "rejoinable (tl r @ NL # t2) ((l' # ls) @ ls2)"
        using "3.IH"(2) [OF r_def _ "3.prems"(2)] by simp
      with a show ?thesis by auto
    qed
  qed
  with t show ?case by simp
qed

lemma wrap_paragraphs_total:
  "1 \<le> cpl \<Longrightarrow> \<exists>r. wrap_paragraphs cpl n i ps (lines, c2p, li, pst) = Inr r"
proof (induction ps arbitrary: i lines c2p li pst)
  case Nil
  then show ?case by simp
next
  case (Cons para ps)
  show ?case
  proof (cases "para = []")
    case True
    with Cons.IH [OF Cons.prems] show ?thesis by simp
  next
    case False
    from textwrap_wrap_lengths [OF Cons.prems] obtain wrapped0 where
      w0: "textwrap_wrap para cpl = Inr wrapped0" by blast
    define wrapped where "wrapped = (if wrapped0 = [] then [[]] else wrapped0)"
    have ne: "wrapped \<noteq> []" by (simp add: wrapped_def)
    obtain c2p1 pc lines1 li1 where mw:
      "map_wrapped para pst wrapped (c2p, 0, lines, li) = (c2p1, pc, lines1, li1)"
      by (cases "map_wrapped para pst wrapped (c2p, 0, lines, li)") auto
    from map_wrapped_lines [OF mw] ne have "lines1 \<noteq> []" by simp
    then have idx: "py_index lines1 (- 1) = Inr (lines1 ! nat (py_len lines1 - 1))"
      by (cases lines1) (auto simp: py_index_def py_len_def Let_def)
    from Cons.IH [OF Cons.prems] False w0 mw idx show ?thesis
      by (simp add: wrapped_def [symmetric] Let_def)
  qed
qed

lemma wrap_paragraphs_lines:
  "wrap_paragraphs cpl n i ps (lines, c2p, li, pst) = Inr (lines', c2p', li', pst') \<Longrightarrow>
     1 \<le> cpl \<Longrightarrow>
     \<exists>extra. lines' = lines @ extra
       \<and> (\<forall>l \<in> set extra. py_len l \<le> cpl)
       \<and> (list_all nice_para ps \<longrightarrow> ps \<noteq> [] \<longrightarrow>
            rejoinable (butlast (concat (map (\<lambda>p. p @ [NL]) ps))) extra)"
proof (induction ps arbitrary: i lines c2p li pst)
  case Nil
  then show ?case by simp
next
  case (Cons para ps)
  have step: "\<exists>extra. lines' = lines @ extra
       \<and> (\<forall>l \<in> set extra. py_len l \<le> cpl)
       \<and> (list_all nice_para (para # ps) \<longrightarrow>
            rejoinable (butlast (concat (map (\<lambda>p. p @ [NL]) (para # ps)))) extra)"
    if rec: "wrap_paragraphs cpl n (Suc i) ps (lines @ ws, c2p2, li2, pst2) = Inr (lines', c2p', li', pst')"
      and short: "\<forall>l \<in> set ws. py_len l \<le> cpl"
      and rj: "nice_para para \<longrightarrow> rejoinable para ws"
    for ws c2p2 li2 pst2
  proof -
    from Cons.IH [OF rec Cons.prems(2)] obtain extra where
      e: "lines' = (lines @ ws) @ extra" and es: "\<forall>l \<in> set extra. py_len l \<le> cpl"
      and er: "list_all nice_para ps \<longrightarrow> ps \<noteq> [] \<longrightarrow>
                 rejoinable (butlast (concat (map (\<lambda>p. p @ [NL]) ps))) extra"
      by blast
    have "rejoinable (butlast (concat (map (\<lambda>p. p @ [NL]) (para # ps)))) (ws @ extra)"
      if nice: "list_all nice_para (para # ps)"
    proof (cases "ps = []")
      case True
      with rec e have "extra = []" by simp
      with True nice rj show ?thesis by (simp add: butlast_append)
    next
      case False
      then have cne: "concat (map (\<lambda>p. p @ [NL]) ps) \<noteq> []" by (cases ps) auto
      from nice er False have "rejoinable (butlast (concat (map (\<lambda>p. p @ [NL]) ps))) extra" by simp
      with nice rj have "rejoinable (para @ NL # butlast (concat (map (\<lambda>p. p @ [NL]) ps))) (ws @ extra)"
        by (intro rejoinable_newline) simp_all
      with cne show ?thesis by (simp add: butlast_append)
    qed
    with e es short show ?thesis by auto
  qed
  show ?case
  proof (cases "para = []")
    case True
    let ?c2p1 = "if int i < int n - 1 then c2p(int pst \<mapsto> (int li, 0)) else c2p"
    from Cons.prems(1) True have rec:
      "wrap_paragraphs cpl n (Suc i) ps (lines @ [[]], ?c2p1, Suc li, Suc pst) = Inr (lines', c2p', li', pst')"
      by simp
    have "\<forall>l \<in> set [[]]. py_len l \<le> cpl" using Cons.prems(2) by (simp add: py_len_def)
    moreover have "nice_para para \<longrightarrow> rejoinable para [[]]" using True by simp
    ultimately show ?thesis using step [OF rec] by blast
  next
    case False
    from Cons.prems False obtain wrapped0 where w0: "textwrap_wrap para cpl = Inr wrapped0"
      by (cases "textwrap_wrap para cpl") auto
    define wrapped where "wrapped = (if wrapped0 = [] then [[]] else wrapped0)"
    obtain c2p1 pc lines1 li1 where mw:
      "map_wrapped para pst wrapped (c2p, 0, lines, li) = (c2p1, pc, lines1, li1)"
      by (cases "map_wrapped para pst wrapped (c2p, 0, lines, li)") auto
    from map_wrapped_lines [OF mw] have l1: "lines1 = lines @ wrapped" by simp
    from Cons.prems(1) False w0 mw l1 obtain c2p2 where rec:
      "wrap_paragraphs cpl n (Suc i) ps (lines @ wrapped, c2p2, li1, pst + length para + 1)
         = Inr (lines', c2p', li', pst')"
      by (auto simp: wrapped_def [symmetric] Let_def split: sum.splits if_splits)
    from textwrap_wrap_lengths [OF Cons.prems(2), of para] w0
    have "\<forall>l \<in> set wrapped0. py_len l \<le> cpl" by auto
    then have short: "\<forall>l \<in> set wrapped. py_len l \<le> cpl"
      using Cons.prems(2) by (simp add: wrapped_def py_len_def)
    have "rejoinable para wrapped" if "nice_para para"
    proof -
      from nice_para_wrap [OF Cons.prems(2) that False] w0
      have r: "rejoinable para wrapped0" by auto
      then have "wrapped0 \<noteq> []" by (rule rejoinable_nonempty)
      with r show ?thesis by (simp add: wrapped_def)
    qed
    with step [OF rec short] show ?thesis by blast
  qed
qed

lemma split_nl_nonempty: "split_nl t \<noteq> []"
  by (cases t) (auto split: list.splits)

text \<open>
  Claim C1, amended.  For every text and every wrap width of at least 1 the wrap engine
  returns lines, each of length at most the wrap width.  When the text is single-spaced,
  re-joining the lines reconstructs the text exactly.
\<close>

theorem wrap_lines_fit_and_rejoin:
  assumes "1 \<le> chars_per_line self"
  shows "\<exists>lines cursor_line cursor_col.
           wrap_with_cursor self = Inr (lines, cursor_line, cursor_col)
           \<and> (\<forall>l \<in> set lines. py_len l \<le> chars_per_line self)
           \<and> (single_spaced (doc_text self) \<longrightarrow> rejoinable (doc_text self) lines)"
proof -
  let ?ps = "split_nl (doc_text self)"
  let ?cpl = "chars_per_line self"
  from wrap_paragraphs_total [OF assms] obtain lines0 c2p li pst where
    wp: "wrap_paragraphs ?cpl (length ?ps) 0 ?ps ([], Map.empty, 0, 0) = Inr (lines0, c2p, li, pst)"
    by (metis prod_cases4)
  from wrap_paragraphs_lines [OF wp assms]
  have short0: "\<forall>l \<in> set lines0. py_len l \<le> ?cpl"
    and rj0: "single_spaced (doc_text self) \<longrightarrow> rejoinable (doc_text self) lines0"
    by (auto simp: single_spaced_def split_nl_nonempty split_nl_concat)
  define lines where "lines = (if lines0 = [] then [[]] else lines0)"
  have ne: "lines \<noteq> []" by (simp add: lines_def)
  then have idx: "py_index lines (- 1) = Inr (lines ! nat (py_len lines - 1))"
    by (cases lines) (auto simp: py_index_def py_len_def Let_def)
  have short: "\<forall>l \<in> set lines. py_len l \<le> ?cpl"
    using short0 assms by (auto simp: lines_def py_len_def)
  have rj: "single_spaced (doc_text self) \<longrightarrow> rejoinable (doc_text self) lines"
    using rj0 by (auto simp: lines_def)
  have "\<exists>cl cc. wrap_with_cursor self = Inr (lines, cl, cc)"
  proof (cases "lines0 = []")
    case True
    with wp idx show ?thesis
      by (auto simp: wrap_with_cursor_def lines_def Let_def split: option.splits)
  next
    case False
    with wp idx show ?thesis
      by (auto simp: wrap_with_cursor_def lines_def Let_def split: option.splits)
  qed
  with short rj show ?thesis by blast
qed

theorem wrap_lines_fit_and_rejoin_witness:
  "1 \<le> chars_per_line (editing ''hello world'' 0 5)
   \<and> single_spaced (doc_text (editing ''hello world'' 0 5))
   \<and> wrap_with_cursor (editing ''hello world'' 0 5) = Inr ([''hello'', ''world''], 0, 0)
   \<and> py_len ''hello'' \<le> 5 \<and> py_len ''world'' \<le> 5
   \<and> rejoinable ''hello world'' [''hello'', ''world'']"
proof -
  have h: "1 \<le> chars_per_line (editing ''hello world'' 0 5)"
    by (simp add: editing_def init_app_def)
  have s: "single_spaced (doc_text (editing ''hello world'' 0 5))"
    by code_simp
  have w: "wrap_with_cursor (editing ''hello world'' 0 5) = Inr ([''hello'', ''world''], 0, 0)"
    by code_simp
  have t: "doc_text (editing ''hello world'' 0 5) = ''hello world''"
    by (simp add: editing_def init_app_def)
  from wrap_lines_fit_and_rejoin [OF h] s w
  have "rejoinable (doc_text (editing ''hello world'' 0 5)) [''hello'', ''world'']"
    by auto
  with h s w t show ?thesis by (simp add: py_len_def)
qed

text \<open>
  Claim C1 fails as stated.  With two spaces between \<open>a\<close> and \<open>b\<close> and a wrap width of 1 the
  lines are \<open>a\<close> and \<open>b\<close>: the wrapper has dropped both spaces, and putting back one space,
  one newline or nothing between the lines does not give the text.  With a tab between
  them and a wrap width of 30 the single line holds seven spaces in place of the tab.
\<close>

theorem dropped_whitespace_not_rejoinable:
  "wrap_with_cursor (editing ''a  b'' 0 1) = Inr ([''a'', ''b''], 0, 0)
   \<and> \<not> rejoinable ''a  b'' [''a'', ''b'']
   \<and> wrap_with_cursor (editing [CHR ''a'', TAB, CHR ''b''] 0 30) = Inr ([''a       b''], 0, 0)
   \<and> \<not> rejoinable [CHR ''a'', TAB, CHR ''b''] [''a       b'']"
  by code_simp

end
